theory Spec2Isabelle
  imports Main "HOL-Library.Word" "HOL-Library.Multiset"
begin

section \<open>Errors and results\<close>

text \<open>
  The trie of \<^verbatim>\<open>storage/merkle/tree.go\<close> has one declared error,
  \<^verbatim>\<open>ErrorIncompatibleKeyLength\<close>.  Everything else that can stop an operation is a
  Go run-time panic: an index outside a slice, a method call on a nil interface, a
  slice of negative length.  Both kinds are values of \<open>error\<close>; a result is
  \<open>error + 'a\<close> with \<open>Inl\<close> the failure.
\<close>

datatype error =
    ErrorIncompatibleKeyLength
  | IndexOutOfRange
  | NilDereference
  | NegativeLength

definition bindE :: "error + 'a \<Rightarrow> ('a \<Rightarrow> error + 'b) \<Rightarrow> error + 'b" where
  "bindE m f = (case m of Inl e \<Rightarrow> Inl e | Inr x \<Rightarrow> f x)"

lemma bindE_Inr [simp]: "bindE (Inr x) f = f x"
  by (simp add: bindE_def)

lemma bindE_Inl [simp]: "bindE (Inl e) f = Inl e"
  by (simp add: bindE_def)

lemma bindE_cong [fundef_cong]:
  "m = m' \<Longrightarrow> (\<And>x. m' = Inr x \<Longrightarrow> f x = f' x) \<Longrightarrow> bindE m f = bindE m' f'"
  by (cases m') (simp_all add: bindE_def)

lemma bindE_eq_Inr:
  "bindE m f = Inr y \<longleftrightarrow> (\<exists>x. m = Inr x \<and> f x = Inr y)"
  by (cases m) simp_all

type_synonym byte = "8 word"

section \<open>Bit utilities\<close>

text \<open>
  Modelled from the spec: package \<^verbatim>\<open>ledger/common/bitutils\<close> is imported by the
  trie and is not part of the sources at hand.  The spec gives its contract: bit 0 is
  the most significant bit of byte 0, \<^verbatim>\<open>make_bitvec n\<close> is a zeroed buffer of
  \<open>\<lceil>n/8\<rceil>\<close> bytes.  A bit is a \<open>bool\<close> (Go: the int 0 or 1).  An index beyond the
  buffer is Go's slice-index panic.
\<close>

definition ReadBit :: "byte list \<Rightarrow> nat \<Rightarrow> error + bool" where
  "ReadBit b idx =
     (if idx div 8 < length b then Inr (bit (b ! (idx div 8)) (7 - idx mod 8))
      else Inl IndexOutOfRange)"

definition SetBit :: "byte list \<Rightarrow> nat \<Rightarrow> error + byte list" where
  "SetBit b idx =
     (if idx div 8 < length b
      then Inr (b[idx div 8 := set_bit (7 - idx mod 8) (b ! (idx div 8))])
      else Inl IndexOutOfRange)"

definition ClearBit :: "byte list \<Rightarrow> nat \<Rightarrow> error + byte list" where
  "ClearBit b idx =
     (if idx div 8 < length b
      then Inr (b[idx div 8 := unset_bit (7 - idx mod 8) (b ! (idx div 8))])
      else Inl IndexOutOfRange)"

definition WriteBit :: "byte list \<Rightarrow> nat \<Rightarrow> bool \<Rightarrow> error + byte list" where
  "WriteBit b idx v = (if v then SetBit b idx else ClearBit b idx)"

definition MakeBitVector :: "nat \<Rightarrow> byte list" where
  "MakeBitVector bitsLen = replicate ((bitsLen + 7) div 8) 0"

text \<open>Go's \<^verbatim>\<open>ReadBit\<close> takes an \<^verbatim>\<open>int\<close>; a negative index panics as well.\<close>

definition ReadBitI :: "byte list \<Rightarrow> int \<Rightarrow> error + bool" where
  "ReadBitI b idx = (if idx < 0 then Inl IndexOutOfRange else ReadBit b (nat idx))"

section \<open>Nodes\<close>

text \<open>
  A node slot of the Go tree holds \<^verbatim>\<open>nil\<close>, a \<^verbatim>\<open>*leaf\<close>, a \<^verbatim>\<open>*short\<close> or a
  \<^verbatim>\<open>*full\<close>.  A short node keeps its bit count and the packed bytes of its path
  separately, as the source does.
\<close>

datatype node =
    Nil
  | Leaf (val: "byte list")
  | Short (count: nat) (path: "byte list") (child: node)
  | Full (left: node) (right: node)

record Tree =
  keyLength :: int
  root :: node

definition maxKeyLength :: int where
  "maxKeyLength = 8192"

definition NewTree :: "int \<Rightarrow> error + Tree" where
  "NewTree kl =
     (if kl < 1 \<or> maxKeyLength < kl then Inl ErrorIncompatibleKeyLength
      else Inr \<lparr>keyLength = kl, root = Nil\<rparr>)"

section \<open>The bit loops of the trie\<close>

text \<open>
  \<^verbatim>\<open>for i := 0; i < n; i++ { if ReadBit(key, i+index) != ReadBit(path, i) { break }; commonCount++ }\<close>
  of \<^verbatim>\<open>unsafePut\<close>: the result is the final \<^verbatim>\<open>commonCount\<close>.  The key is read first.
\<close>

function commonLoop :: "byte list \<Rightarrow> nat \<Rightarrow> byte list \<Rightarrow> nat \<Rightarrow> nat \<Rightarrow> error + nat" where
  "commonLoop key index pth n i =
     (if i < n
      then bindE (ReadBit key (i + index)) (\<lambda>a.
           bindE (ReadBit pth i) (\<lambda>b.
             if a \<noteq> b then Inr i else commonLoop key index pth n (i + 1)))
      else Inr i)"
  by pat_completeness auto
termination
  by (relation "measure (\<lambda>(key, index, pth, n, i). n - i)") auto

declare commonLoop.simps [simp del]

text \<open>
  \<^verbatim>\<open>for i := 0; i < n.count; i++ { if ReadBit(key, i+index) != ReadBit(n.path, i) { return ... } }\<close>
  of \<^verbatim>\<open>unsafeGet\<close>, \<^verbatim>\<open>Prove\<close> and \<^verbatim>\<open>unsafeDel\<close>: \<open>True\<close> when the loop runs to its end.
\<close>

function matchLoop :: "byte list \<Rightarrow> nat \<Rightarrow> byte list \<Rightarrow> nat \<Rightarrow> nat \<Rightarrow> error + bool" where
  "matchLoop key index pth n i =
     (if i < n
      then bindE (ReadBit key (i + index)) (\<lambda>a.
           bindE (ReadBit pth i) (\<lambda>b.
             if a \<noteq> b then Inr False else matchLoop key index pth n (i + 1)))
      else Inr True)"
  by pat_completeness auto
termination
  by (relation "measure (\<lambda>(key, index, pth, n, i). n - i)") auto

declare matchLoop.simps [simp del]

text \<open>
  \<^verbatim>\<open>for i := 0; i < n; i++ { WriteBit(dst, i+dOff, ReadBit(src, i+sOff)) }\<close>:
  the four copy loops of \<^verbatim>\<open>unsafePut\<close> and the two of \<^verbatim>\<open>merge\<close>.
\<close>

function copyBits :: "byte list \<Rightarrow> nat \<Rightarrow> byte list \<Rightarrow> nat \<Rightarrow> nat \<Rightarrow> nat \<Rightarrow> error + byte list" where
  "copyBits src sOff dst dOff n i =
     (if i < n
      then bindE (ReadBit src (i + sOff)) (\<lambda>v.
           bindE (WriteBit dst (i + dOff) v) (\<lambda>dst'.
             copyBits src sOff dst' dOff n (i + 1)))
      else Inr dst)"
  by pat_completeness auto
termination
  by (relation "measure (\<lambda>(src, sOff, dst, dOff, n, i). n - i)") auto

declare copyBits.simps [simp del]

text \<open>
  \<^verbatim>\<open>for j := 0; j < n; j++ { if ReadBit(src, off+j) == 1 { SetBit(dst, j) } }\<close>
  of \<^verbatim>\<open>Prove\<close> and \<^verbatim>\<open>Verify\<close>; the offset is an \<^verbatim>\<open>int\<close> there.
\<close>

function setBits :: "byte list \<Rightarrow> int \<Rightarrow> byte list \<Rightarrow> nat \<Rightarrow> nat \<Rightarrow> error + byte list" where
  "setBits src off dst n j =
     (if j < n
      then bindE (ReadBitI src (off + int j)) (\<lambda>v.
           bindE (if v then SetBit dst j else Inr dst) (\<lambda>dst'.
             setBits src off dst' n (j + 1)))
      else Inr dst)"
  by pat_completeness auto
termination
  by (relation "measure (\<lambda>(src, off, dst, n, j). n - j)") auto

declare setBits.simps [simp del]

section \<open>Put\<close>

text \<open>
  The \<^verbatim>\<open>case nil\<close> branch of \<^verbatim>\<open>PutLoop\<close>: at the end of the key a leaf is installed;
  before it, a short node with the rest of the key, and the next iteration (again
  \<^verbatim>\<open>case nil\<close>, now at the end of the key) installs the leaf below it.
  Every bit of the key below \<open>index\<close> has been read on the way to this slot, so
  \<open>index\<close> is never beyond the key here; the last branch is Go's \<^verbatim>\<open>make\<close> with
  a negative length.
\<close>

definition putNil :: "byte list \<Rightarrow> byte list \<Rightarrow> nat \<Rightarrow> error + node" where
  "putNil key v index =
     (let totalCount = length key * 8 in
      if index = totalCount then Inr (Leaf v)
      else if index < totalCount then
        (let finalCount = totalCount - index in
         bindE (copyBits key index (MakeBitVector finalCount) 0 finalCount 0) (\<lambda>finalPath.
           Inr (Short finalCount finalPath (Leaf v))))
      else Inl NegativeLength)"

text \<open>
  \<^verbatim>\<open>unsafePut\<close>, from the slot \<open>cur\<close> on: the result is the new content of the slot
  and the returned flag.  Descending into \<^verbatim>\<open>&n.left\<close> and writing through the pointer
  later is rebuilding the node around the new child.
\<close>

fun putNode :: "byte list \<Rightarrow> byte list \<Rightarrow> nat \<Rightarrow> node \<Rightarrow> error + (node \<times> bool)" where
  "putNode key v index (Full l r) =
     bindE (ReadBit key index) (\<lambda>b.
       if \<not> b
       then bindE (putNode key v (index + 1) l) (\<lambda>(l', replaced). Inr (Full l' r, replaced))
       else bindE (putNode key v (index + 1) r) (\<lambda>(r', replaced). Inr (Full l r', replaced)))"
| "putNode key v index (Short shortPathCount pth ch) =
     bindE (commonLoop key index pth shortPathCount 0) (\<lambda>commonCount.
       if commonCount = shortPathCount
       then bindE (putNode key v (index + commonCount) ch) (\<lambda>(ch', replaced).
              Inr (Short shortPathCount pth ch', replaced))
       else
         bindE (if commonCount > 0
                then copyBits key index (MakeBitVector commonCount) 0 commonCount 0
                else Inr []) (\<lambda>commonPath.
         bindE (ReadBit pth commonCount) (\<lambda>pathBit.
         let remainCount = shortPathCount - commonCount - 1 in
         bindE (if remainCount > 0
                then bindE (copyBits pth (commonCount + 1) (MakeBitVector remainCount) 0 remainCount 0)
                       (\<lambda>remainPath. Inr (Short remainCount remainPath ch))
                else Inr ch) (\<lambda>remain.
         bindE (putNil key v (index + commonCount + 1)) (\<lambda>new.
         let splitNode = (if pathBit then Full new remain else Full remain new) in
         Inr (if commonCount > 0 then Short commonCount commonPath splitNode else splitNode,
              False))))))"
| "putNode key v index (Leaf old) = Inr (Leaf v, True)"
| "putNode key v index Nil = bindE (putNil key v index) (\<lambda>n. Inr (n, False))"

definition unsafePut :: "Tree \<Rightarrow> byte list \<Rightarrow> byte list \<Rightarrow> error + (Tree \<times> bool)" where
  "unsafePut t key v =
     bindE (putNode key v 0 (root t)) (\<lambda>(r, replaced). Inr (t\<lparr>root := r\<rparr>, replaced))"

definition Put :: "Tree \<Rightarrow> byte list \<Rightarrow> byte list \<Rightarrow> error + (Tree \<times> bool)" where
  "Put t key v =
     (if int (length key) \<noteq> keyLength t then Inl ErrorIncompatibleKeyLength
      else unsafePut t key v)"

section \<open>Get\<close>

text \<open>\<^verbatim>\<open>GetLoop\<close>; Go's \<^verbatim>\<open>(nil, false)\<close> is \<open>([], False)\<close>.\<close>

fun getNode :: "byte list \<Rightarrow> nat \<Rightarrow> node \<Rightarrow> error + (byte list \<times> bool)" where
  "getNode key index (Full l r) =
     bindE (ReadBit key index) (\<lambda>b.
       if \<not> b then getNode key (index + 1) l else getNode key (index + 1) r)"
| "getNode key index (Short n pth ch) =
     bindE (matchLoop key index pth n 0) (\<lambda>ok.
       if \<not> ok then Inr ([], False) else getNode key (index + n) ch)"
| "getNode key index (Leaf v) = Inr (v, True)"
| "getNode key index Nil = Inr ([], False)"

definition unsafeGet :: "Tree \<Rightarrow> byte list \<Rightarrow> error + (byte list \<times> bool)" where
  "unsafeGet t key = getNode key 0 (root t)"

definition Get :: "Tree \<Rightarrow> byte list \<Rightarrow> error + (byte list \<times> bool)" where
  "Get t key =
     (if root t = Nil \<or> keyLength t \<noteq> int (length key) then Inr ([], False)
      else unsafeGet t key)"

section \<open>Hashing\<close>

text \<open>
  The hash primitive (\<^verbatim>\<open>blake2b.New256\<close> keyed with a node tag) is an external
  collaborator of the trie.  It is the parameter \<open>H\<close> of every definition that hashes:
  \<open>H tag bs\<close> is the digest of the bytes \<open>bs\<close> written to a hasher keyed with \<open>tag\<close>.
\<close>

datatype tag = leafNodeTag | shortNodeTag | fullNodeTag

type_synonym hasher = "tag \<Rightarrow> byte list \<Rightarrow> byte list"

text \<open>
  A hasher to run the definitions with: it puts one byte for the tag in front of the
  input.  It is not a 256-bit digest; statements are instantiated with it where a
  concrete hash function is needed.
\<close>

definition prefixHasher :: hasher where
  "prefixHasher tg bs = (case tg of leafNodeTag \<Rightarrow> 0 | fullNodeTag \<Rightarrow> 1 | shortNodeTag \<Rightarrow> 2) # bs"

text \<open>
  Modelled from the spec: \<^verbatim>\<open>serializedPathSegmentLength\<close> and the \<^verbatim>\<open>Hash\<close> methods
  of the node types live in \<^verbatim>\<open>node.go\<close>, which is not part of the sources at hand.
  The spec: the length is the two-byte big-endian encoding of \<open>n mod 65536\<close>; a leaf
  hashes its value, a full node the digests of its left and right child, a short node
  the encoded length, the path bytes and the digest of its child.  A \<^verbatim>\<open>nil\<close> slot has
  no \<^verbatim>\<open>Hash\<close> method to call.
\<close>

definition serializedPathSegmentLength :: "nat \<Rightarrow> byte list" where
  "serializedPathSegmentLength l = [word_of_nat (l div 256), word_of_nat l]"

fun hashNode :: "hasher \<Rightarrow> node \<Rightarrow> error + byte list" where
  "hashNode H Nil = Inl NilDereference"
| "hashNode H (Leaf v) = Inr (H leafNodeTag v)"
| "hashNode H (Short n pth ch) =
     bindE (hashNode H ch) (\<lambda>hc.
       Inr (H shortNodeTag (serializedPathSegmentLength n @ pth @ hc)))"
| "hashNode H (Full l r) =
     bindE (hashNode H l) (\<lambda>hl.
     bindE (hashNode H r) (\<lambda>hr.
       Inr (H fullNodeTag (hl @ hr))))"

text \<open>\<^verbatim>\<open>Tree.Hash\<close>: the empty trie has the empty hash.\<close>

definition Hash :: "hasher \<Rightarrow> Tree \<Rightarrow> error + byte list" where
  "Hash H t = (if root t = Nil then Inr [] else hashNode H (root t))"

section \<open>Proofs of inclusion\<close>

record Proof =
  Key :: "byte list"
  HashValue :: "byte list"
  ShortCounts :: "byte list"
  InterimHashes :: "byte list list"

text \<open>
  \<^verbatim>\<open>ProveLoop\<close>.  Go's \<^verbatim>\<open>(nil, false)\<close> is \<open>None\<close>, \<^verbatim>\<open>(proof, true)\<close> is \<open>Some proof\<close>.
  \<^verbatim>\<open>uint8(n.count)\<close> keeps the low eight bits of the count.
\<close>

fun proveLoop ::
  "hasher \<Rightarrow> byte list \<Rightarrow> nat \<Rightarrow> node \<Rightarrow> byte list \<Rightarrow> byte list list \<Rightarrow> error + Proof option" where
  "proveLoop H key index (Full l r) shortCounts hashValues =
     bindE (ReadBit key index) (\<lambda>b.
       if \<not> b
       then bindE (hashNode H r) (\<lambda>h.
              proveLoop H key (index + 1) l (shortCounts @ [0]) (hashValues @ [h]))
       else bindE (hashNode H l) (\<lambda>h.
              proveLoop H key (index + 1) r (shortCounts @ [0]) (hashValues @ [h])))"
| "proveLoop H key index (Short n pth ch) shortCounts hashValues =
     bindE (matchLoop key index pth n 0) (\<lambda>ok.
       if \<not> ok then Inr None
       else proveLoop H key (index + n) ch (shortCounts @ [word_of_nat n]) hashValues)"
| "proveLoop H key index (Leaf v) shortCounts hashValues =
     bindE (hashNode H (Leaf v)) (\<lambda>h.
       Inr (Some \<lparr>Key = key, HashValue = h,
                  ShortCounts = shortCounts, InterimHashes = hashValues\<rparr>))"
| "proveLoop H key index Nil shortCounts hashValues = Inr None"

text \<open>
  \<^verbatim>\<open>Prove\<close> first copies the leading \<^verbatim>\<open>t.keyLength\<close> bits of the key into a bit vector
  that it does not use afterwards; the reads can still panic.  It has no check of the
  key's length.
\<close>

definition Prove :: "hasher \<Rightarrow> Tree \<Rightarrow> byte list \<Rightarrow> error + Proof option" where
  "Prove H t key =
     bindE (setBits key 0 (MakeBitVector (nat (keyLength t))) (nat (keyLength t)) 0) (\<lambda>_.
       proveLoop H key 0 (root t) [] [])"

text \<open>
  The loop of \<^verbatim>\<open>Verify\<close>, \<^verbatim>\<open>for i := len(p.ShortCounts) - 1; i >= 0; i--\<close>: the
  counter \<open>Suc i\<close> stands for the iteration at index \<open>i\<close>.  \<^verbatim>\<open>hashIndex\<close> and
  \<^verbatim>\<open>pathIndex\<close> are Go \<^verbatim>\<open>int\<close>s.
\<close>

fun verifyLoop ::
  "hasher \<Rightarrow> Proof \<Rightarrow> nat \<Rightarrow> byte list \<Rightarrow> int \<Rightarrow> int \<Rightarrow> error + (byte list \<times> int)" where
  "verifyLoop H p 0 currentHash hashIndex pathIndex = Inr (currentHash, pathIndex)"
| "verifyLoop H p (Suc i) currentHash hashIndex pathIndex =
     (let shortCounts = ShortCounts p ! i in
      if shortCounts = 0 then
        (if hashIndex < 0 \<or> int (length (InterimHashes p)) \<le> hashIndex then Inl IndexOutOfRange
         else
           let neighbour = InterimHashes p ! nat hashIndex;
               hashIndex' = hashIndex - 1;
               pathIndex' = pathIndex - 1
           in bindE (ReadBitI (Key p) pathIndex') (\<lambda>b.
                verifyLoop H p i
                  (if b then H fullNodeTag (neighbour @ currentHash)
                   else H fullNodeTag (currentHash @ neighbour))
                  hashIndex' pathIndex'))
      else
        (let pathIndex' = pathIndex - int (unat shortCounts) in
         bindE (setBits (Key p) pathIndex' (MakeBitVector (unat shortCounts)) (unat shortCounts) 0)
           (\<lambda>commonPath.
             verifyLoop H p i
               (H shortNodeTag
                  (serializedPathSegmentLength (unat shortCounts) @ commonPath @ currentHash))
               hashIndex pathIndex')))"

definition Verify :: "hasher \<Rightarrow> Proof \<Rightarrow> byte list \<Rightarrow> error + bool" where
  "Verify H p expectedRootHash =
     (let hashIndex = int (length (InterimHashes p)) - 1;
          pathIndex = int (length (InterimHashes p)) + (\<Sum>sc \<leftarrow> ShortCounts p. int (unat sc))
      in bindE (verifyLoop H p (length (ShortCounts p)) (HashValue p) hashIndex pathIndex)
           (\<lambda>(currentHash, pathIndex').
              if pathIndex' \<noteq> 0 \<or> currentHash \<noteq> expectedRootHash then Inr False
              else Inr True))"

section \<open>Del\<close>

text \<open>
  \<^verbatim>\<open>unsafeDel\<close> walks down with a pointer to the current slot and remembers the slots
  of the last three nodes it passed (\<^verbatim>\<open>last\<close>, \<^verbatim>\<open>parent\<close>, \<^verbatim>\<open>grand\<close>), then rewrites
  through these pointers.  The model keeps the whole trail of the walk, innermost
  first: a frame is the node that was passed without the child that was entered, so the
  first three frames are \<^verbatim>\<open>last\<close>, \<^verbatim>\<open>parent\<close> and \<^verbatim>\<open>grand\<close>, and a missing frame is
  the \<^verbatim>\<open>dummy\<close> node.  \<open>plug\<close> puts a subtree back into the slot the trail leads to.
\<close>

datatype frame =
    FullLeft node
  | FullRight node
  | ShortChild nat "byte list"

fun plug1 :: "frame \<Rightarrow> node \<Rightarrow> node" where
  "plug1 (FullLeft r) n = Full n r"
| "plug1 (FullRight l) n = Full l n"
| "plug1 (ShortChild c pth) n = Short c pth n"

fun plug :: "frame list \<Rightarrow> node \<Rightarrow> node" where
  "plug [] n = n"
| "plug (f # fs) n = plug fs (plug1 f n)"

text \<open>\<^verbatim>\<open>DelLoop\<close>: \<open>None\<close> is \<^verbatim>\<open>return false\<close>, \<open>Some trail\<close> is \<^verbatim>\<open>break DelLoop\<close> at a leaf.\<close>

fun delLoop :: "byte list \<Rightarrow> nat \<Rightarrow> node \<Rightarrow> frame list \<Rightarrow> error + frame list option" where
  "delLoop key index (Full l r) trail =
     bindE (ReadBit key index) (\<lambda>b.
       if \<not> b then delLoop key (index + 1) l (FullLeft r # trail)
       else delLoop key (index + 1) r (FullRight l # trail))"
| "delLoop key index (Short n pth ch) trail =
     bindE (matchLoop key index pth n 0) (\<lambda>ok.
       if \<not> ok then Inr None else delLoop key (index + n) ch (ShortChild n pth # trail))"
| "delLoop key index (Leaf v) trail = Inr (Some trail)"
| "delLoop key index Nil trail = Inr None"

text \<open>
  \<^verbatim>\<open>merge(p, c)\<close> for two short nodes, given by their fields: the result is the new
  content of \<open>p\<close>.
\<close>

definition merge :: "nat \<Rightarrow> byte list \<Rightarrow> nat \<Rightarrow> byte list \<Rightarrow> node \<Rightarrow> error + node" where
  "merge pCount pPath cCount cPath cChild =
     (let totalCount = pCount + cCount in
      bindE (copyBits pPath 0 (MakeBitVector totalCount) 0 pCount 0) (\<lambda>totalPath.
      bindE (copyBits cPath 0 totalPath pCount cCount 0) (\<lambda>totalPath'.
        Inr (Short totalCount totalPath' cChild))))"

text \<open>
  The part of \<^verbatim>\<open>unsafeDel\<close> after the loop.  The leaf's slot is set to \<^verbatim>\<open>nil\<close>; a
  short node directly over it is removed as well and the pointers move up
  (\<open>dropShort\<close>); a full node found there becomes a short node of one bit that leads to
  its other child, merged with that child and with the node over it where these are
  short nodes.  The result is the new root.
\<close>

definition dropShort :: "frame list \<Rightarrow> frame list" where
  "dropShort trail = (case trail of ShortChild c pth # rest \<Rightarrow> rest | _ \<Rightarrow> trail)"

definition singleBit :: "node \<Rightarrow> node \<Rightarrow> error + node" where
  "singleBit l r =
     bindE (if l \<noteq> Nil
            then bindE (ClearBit (MakeBitVector 1) 0) (\<lambda>newPath. Inr (newPath, l))
            else bindE (SetBit (MakeBitVector 1) 0) (\<lambda>newPath. Inr (newPath, r)))
       (\<lambda>(newPath, c).
          case c of
            Short cCount cPath cChild \<Rightarrow> merge 1 newPath cCount cPath cChild
          | _ \<Rightarrow> Inr (Short 1 newPath c))"

definition mergeParent :: "frame list \<Rightarrow> node \<Rightarrow> error + node" where
  "mergeParent outer n =
     (case outer of
        ShortChild pCount pPath # rest \<Rightarrow>
          bindE (merge pCount pPath (count n) (path n) (child n)) (\<lambda>p. Inr (plug rest p))
      | _ \<Rightarrow> Inr (plug outer n))"

definition delCleanup :: "frame list \<Rightarrow> error + node" where
  "delCleanup trail =
     (case dropShort trail of
        FullLeft r # outer \<Rightarrow> bindE (singleBit Nil r) (mergeParent outer)
      | FullRight l # outer \<Rightarrow> bindE (singleBit l Nil) (mergeParent outer)
      | rest \<Rightarrow> Inr (plug rest Nil))"

definition unsafeDel :: "Tree \<Rightarrow> byte list \<Rightarrow> error + (Tree \<times> bool)" where
  "unsafeDel t key =
     bindE (delLoop key 0 (root t) []) (\<lambda>found.
       case found of
         None \<Rightarrow> Inr (t, False)
       | Some trail \<Rightarrow> bindE (delCleanup trail) (\<lambda>r. Inr (t\<lparr>root := r\<rparr>, True)))"

definition Del :: "Tree \<Rightarrow> byte list \<Rightarrow> error + (Tree \<times> bool)" where
  "Del t key =
     (if root t = Nil \<or> keyLength t \<noteq> int (length key) then Inr (t, False)
      else unsafeDel t key)"

section \<open>The traversal loops with their cursor\<close>

text \<open>
  The four labelled \<^verbatim>\<open>for\<close> loops of \<^verbatim>\<open>unsafePut\<close>, \<^verbatim>\<open>unsafeGet\<close>, \<^verbatim>\<open>Prove\<close> and
  \<^verbatim>\<open>unsafeDel\<close>, iteration by iteration: the state of a loop is the node in the
  current slot, the bit index and what the loop collects; for \<^verbatim>\<open>PutLoop\<close> the trail
  of frames says where the current slot is, and writing through \<^verbatim>\<open>cur\<close> at the end
  is \<open>plug\<close>.  A loop that never ends has the value \<open>None\<close>.  The recursive
  functions \<open>putNode\<close>, \<open>getNode\<close>, \<open>proveLoop\<close> and \<open>delLoop\<close> above are
  proved to be what these loops compute.
\<close>

partial_function (option) PutLoop ::
  "byte list \<Rightarrow> byte list \<Rightarrow> frame list \<Rightarrow> node \<Rightarrow> nat \<Rightarrow> (error + (node \<times> bool)) option" where
  "PutLoop key v trail cur index =
     (case cur of
        Full l r \<Rightarrow>
          (case ReadBit key index of
             Inl e \<Rightarrow> Some (Inl e)
           | Inr b \<Rightarrow>
               if \<not> b then PutLoop key v (FullLeft r # trail) l (index + 1)
               else PutLoop key v (FullRight l # trail) r (index + 1))
      | Short shortPathCount pth ch \<Rightarrow>
          (case commonLoop key index pth shortPathCount 0 of
             Inl e \<Rightarrow> Some (Inl e)
           | Inr commonCount \<Rightarrow>
               if commonCount = shortPathCount
               then PutLoop key v (ShortChild shortPathCount pth # trail) ch (index + commonCount)
               else
                 (case (if commonCount > 0
                        then copyBits key index (MakeBitVector commonCount) 0 commonCount 0
                        else Inr []) of
                    Inl e \<Rightarrow> Some (Inl e)
                  | Inr commonPath \<Rightarrow>
                 (case ReadBit pth commonCount of
                    Inl e \<Rightarrow> Some (Inl e)
                  | Inr pathBit \<Rightarrow>
                 (case (let remainCount = shortPathCount - commonCount - 1 in
                        if remainCount > 0
                        then bindE (copyBits pth (commonCount + 1) (MakeBitVector remainCount) 0 remainCount 0)
                               (\<lambda>remainPath. Inr (Short remainCount remainPath ch))
                        else Inr ch) of
                    Inl e \<Rightarrow> Some (Inl e)
                  | Inr remain \<Rightarrow>
                      PutLoop key v
                        ((if pathBit then FullLeft remain else FullRight remain) #
                         (if commonCount > 0 then ShortChild commonCount commonPath # trail else trail))
                        Nil (index + commonCount + 1)))))
      | Leaf old \<Rightarrow> Some (Inr (plug trail (Leaf v), True))
      | Nil \<Rightarrow>
          (let totalCount = length key * 8 in
           if index = totalCount then Some (Inr (plug trail (Leaf v), False))
           else if index < totalCount then
             (let finalCount = totalCount - index in
              case copyBits key index (MakeBitVector finalCount) 0 finalCount 0 of
                Inl e \<Rightarrow> Some (Inl e)
              | Inr finalPath \<Rightarrow>
                  PutLoop key v (ShortChild finalCount finalPath # trail) Nil (index + finalCount))
           else Some (Inl NegativeLength)))"

partial_function (option) GetLoop ::
  "byte list \<Rightarrow> node \<Rightarrow> nat \<Rightarrow> (error + (byte list \<times> bool)) option" where
  "GetLoop key cur index =
     (case cur of
        Full l r \<Rightarrow>
          (case ReadBit key index of
             Inl e \<Rightarrow> Some (Inl e)
           | Inr b \<Rightarrow> if \<not> b then GetLoop key l (index + 1) else GetLoop key r (index + 1))
      | Short n pth ch \<Rightarrow>
          (case matchLoop key index pth n 0 of
             Inl e \<Rightarrow> Some (Inl e)
           | Inr ok \<Rightarrow> if \<not> ok then Some (Inr ([], False)) else GetLoop key ch (index + n))
      | Leaf v \<Rightarrow> Some (Inr (v, True))
      | Nil \<Rightarrow> Some (Inr ([], False)))"

partial_function (option) ProveLoop ::
  "hasher \<Rightarrow> byte list \<Rightarrow> node \<Rightarrow> nat \<Rightarrow> byte list \<Rightarrow> byte list list \<Rightarrow>
     (error + Proof option) option" where
  "ProveLoop H key cur index shortCounts hashValues =
     (case cur of
        Full l r \<Rightarrow>
          (case ReadBit key index of
             Inl e \<Rightarrow> Some (Inl e)
           | Inr b \<Rightarrow>
               if \<not> b
               then (case hashNode H r of
                       Inl e \<Rightarrow> Some (Inl e)
                     | Inr h \<Rightarrow> ProveLoop H key l (index + 1) (shortCounts @ [0]) (hashValues @ [h]))
               else (case hashNode H l of
                       Inl e \<Rightarrow> Some (Inl e)
                     | Inr h \<Rightarrow> ProveLoop H key r (index + 1) (shortCounts @ [0]) (hashValues @ [h])))
      | Short n pth ch \<Rightarrow>
          (case matchLoop key index pth n 0 of
             Inl e \<Rightarrow> Some (Inl e)
           | Inr ok \<Rightarrow>
               if \<not> ok then Some (Inr None)
               else ProveLoop H key ch (index + n) (shortCounts @ [word_of_nat n]) hashValues)
      | Leaf v \<Rightarrow>
          Some (bindE (hashNode H (Leaf v)) (\<lambda>h.
            Inr (Some \<lparr>Key = key, HashValue = h,
                       ShortCounts = shortCounts, InterimHashes = hashValues\<rparr>)))
      | Nil \<Rightarrow> Some (Inr None))"

partial_function (option) DelLoop ::
  "byte list \<Rightarrow> node \<Rightarrow> nat \<Rightarrow> frame list \<Rightarrow> (error + frame list option) option" where
  "DelLoop key cur index trail =
     (case cur of
        Full l r \<Rightarrow>
          (case ReadBit key index of
             Inl e \<Rightarrow> Some (Inl e)
           | Inr b \<Rightarrow>
               if \<not> b then DelLoop key l (index + 1) (FullLeft r # trail)
               else DelLoop key r (index + 1) (FullRight l # trail))
      | Short n pth ch \<Rightarrow>
          (case matchLoop key index pth n 0 of
             Inl e \<Rightarrow> Some (Inl e)
           | Inr ok \<Rightarrow>
               if \<not> ok then Some (Inr None)
               else DelLoop key ch (index + n) (ShortChild n pth # trail))
      | Leaf v \<Rightarrow> Some (Inr (Some trail))
      | Nil \<Rightarrow> Some (Inr None))"

text \<open>
  The result of \<open>putNode\<close> on the node of a slot, written into its place.
\<close>

definition plugResult :: "frame list \<Rightarrow> error + (node \<times> bool) \<Rightarrow> error + (node \<times> bool)" where
  "plugResult trail res = bindE res (\<lambda>(n, replaced). Inr (plug trail n, replaced))"

section \<open>Sequences of calls\<close>

text \<open>
  \<open>putAll\<close> and \<open>delAll\<close> call \<^verbatim>\<open>Put\<close> and \<^verbatim>\<open>Del\<close> for the elements of a list,
  in order, and stop at the first call that fails.
\<close>

fun putAll :: "Tree \<Rightarrow> (byte list \<times> byte list) list \<Rightarrow> error + Tree" where
  "putAll t [] = Inr t"
| "putAll t ((key, v) # ps) = bindE (Put t key v) (\<lambda>(t', replaced). putAll t' ps)"

fun delAll :: "Tree \<Rightarrow> byte list list \<Rightarrow> error + Tree" where
  "delAll t [] = Inr t"
| "delAll t (key # keys) = bindE (Del t key) (\<lambda>(t', found). delAll t' keys)"

text \<open>
  A run of operations on one trie.  \<^verbatim>\<open>Put\<close> with a key of the wrong length returns
  its error and leaves the trie as it was; a panic ends the run.  \<^verbatim>\<open>Get\<close>,
  \<^verbatim>\<open>Prove\<close> and \<^verbatim>\<open>Hash\<close> do not write to the tree.
\<close>

datatype op =
    OpPut "byte list" "byte list"
  | OpGet "byte list"
  | OpDel "byte list"
  | OpProve "byte list"
  | OpHash

fun step :: "hasher \<Rightarrow> Tree \<Rightarrow> op \<Rightarrow> error + Tree" where
  "step H t (OpPut key v) =
     (case Put t key v of
        Inr (t', replaced) \<Rightarrow> Inr t'
      | Inl ErrorIncompatibleKeyLength \<Rightarrow> Inr t
      | Inl e \<Rightarrow> Inl e)"
| "step H t (OpGet key) = bindE (Get t key) (\<lambda>_. Inr t)"
| "step H t (OpDel key) = bindE (Del t key) (\<lambda>(t', found). Inr t')"
| "step H t (OpProve key) = bindE (Prove H t key) (\<lambda>_. Inr t)"
| "step H t OpHash = bindE (Hash H t) (\<lambda>_. Inr t)"

fun run :: "hasher \<Rightarrow> Tree \<Rightarrow> op list \<Rightarrow> error + Tree" where
  "run H t [] = Inr t"
| "run H t (x # xs) = bindE (step H t x) (\<lambda>t'. run H t' xs)"

section \<open>Bits of keys and paths\<close>

text \<open>
  \<open>bitAt b i\<close> is bit \<open>i\<close> of the buffer, most significant bit of a byte first;
  \<open>bitsOf b n\<close> are its first \<open>n\<close> bits and \<open>keyBits key\<close> all bits of a key.  A
  path of \<open>c\<close> bits is well formed when its buffer has \<open>\<lceil>c/8\<rceil>\<close> bytes and the bits
  after the first \<open>c\<close> are zero, as \<^verbatim>\<open>MakeBitVector\<close> and \<^verbatim>\<open>WriteBit\<close> leave them.
\<close>

definition bitAt :: "byte list \<Rightarrow> nat \<Rightarrow> bool" where
  "bitAt b i = bit (b ! (i div 8)) (7 - i mod 8)"

definition bitsOf :: "byte list \<Rightarrow> nat \<Rightarrow> bool list" where
  "bitsOf b n = map (bitAt b) [0..<n]"

definition keyBits :: "byte list \<Rightarrow> bool list" where
  "keyBits key = bitsOf key (length key * 8)"

definition wfPath :: "nat \<Rightarrow> byte list \<Rightarrow> bool" where
  "wfPath c p \<longleftrightarrow> length p = (c + 7) div 8 \<and> (\<forall>j\<in>{c..<8 * length p}. \<not> bitAt p j)"

section \<open>The key/value map of a tree\<close>

text \<open>
  The content of a tree is a partial map from bit strings to values: a leaf holds
  the empty bit string, a short node puts its path in front of the keys of its child
  (\<open>pre\<close>), a full node puts \<open>False\<close> in front of the keys of its left child and
  \<open>True\<close> in front of those of its right child (\<open>fork\<close>).
\<close>

type_synonym kv = "bool list \<rightharpoonup> byte list"

definition pre :: "bool list \<Rightarrow> kv \<Rightarrow> kv" where
  "pre bs m = (\<lambda>xs. if take (length bs) xs = bs then m (drop (length bs) xs) else None)"

definition fork :: "kv \<Rightarrow> kv \<Rightarrow> kv" where
  "fork l r = (\<lambda>xs. case xs of [] \<Rightarrow> None | b # ys \<Rightarrow> if b then r ys else l ys)"

fun kvOf :: "node \<Rightarrow> kv" where
  "kvOf Nil = Map.empty"
| "kvOf (Leaf v) = [[] \<mapsto> v]"
| "kvOf (Short c p ch) = pre (bitsOf p c) (kvOf ch)"
| "kvOf (Full l r) = fork (kvOf l) (kvOf r)"

definition treeMap :: "Tree \<Rightarrow> byte list \<rightharpoonup> byte list" where
  "treeMap t = (\<lambda>key. kvOf (root t) (keyBits key))"

section \<open>The structural invariants\<close>

text \<open>
  \<open>wfNode n t\<close>: every leaf of \<open>t\<close> is exactly \<open>n\<close> bits below its root, every
  short node has a count of at least 1, a well-formed path and a child that is not a
  short node, and no slot inside the tree is \<^verbatim>\<open>nil\<close>.  A trie is well formed when
  its key length is at least 1 and its root is \<^verbatim>\<open>nil\<close> or well formed for
  \<open>8 * keyLength\<close> bits.  \<open>mergeDiscipline\<close> is the part of it that the spec calls
  merge discipline.
\<close>

fun isShort :: "node \<Rightarrow> bool" where
  "isShort (Short c p ch) = True"
| "isShort _ = False"

fun wfNode :: "nat \<Rightarrow> node \<Rightarrow> bool" where
  "wfNode n Nil = False"
| "wfNode n (Leaf v) = (n = 0)"
| "wfNode n (Short c p ch) = (1 \<le> c \<and> c \<le> n \<and> wfPath c p \<and> \<not> isShort ch \<and> wfNode (n - c) ch)"
| "wfNode n (Full l r) = (1 \<le> n \<and> wfNode (n - 1) l \<and> wfNode (n - 1) r)"

definition wfTree :: "Tree \<Rightarrow> bool" where
  "wfTree t \<longleftrightarrow> 1 \<le> keyLength t \<and> (root t = Nil \<or> wfNode (nat (keyLength t) * 8) (root t))"

fun mergeDiscipline :: "node \<Rightarrow> bool" where
  "mergeDiscipline Nil = True"
| "mergeDiscipline (Leaf v) = True"
| "mergeDiscipline (Short c p ch) = (1 \<le> c \<and> \<not> isShort ch \<and> mergeDiscipline ch)"
| "mergeDiscipline (Full l r) = (l \<noteq> Nil \<and> r \<noteq> Nil \<and> mergeDiscipline l \<and> mergeDiscipline r)"

section \<open>Trails\<close>

text \<open>
  The bits that lead through a frame and through a trail (outermost frame first), and
  the map of a tree in terms of the map of the subtree in the hole of a trail.
\<close>

fun frameBits :: "frame \<Rightarrow> bool list" where
  "frameBits (FullLeft r) = [False]"
| "frameBits (FullRight l) = [True]"
| "frameBits (ShortChild c p) = bitsOf p c"

fun holeBits :: "frame list \<Rightarrow> bool list" where
  "holeBits [] = []"
| "holeBits (f # fs) = holeBits fs @ frameBits f"

fun frameMap :: "frame \<Rightarrow> kv \<Rightarrow> kv" where
  "frameMap (FullLeft r) m = fork m (kvOf r)"
| "frameMap (FullRight l) m = fork (kvOf l) m"
| "frameMap (ShortChild c p) m = pre (bitsOf p c) m"

fun ctxMap :: "frame list \<Rightarrow> kv \<Rightarrow> kv" where
  "ctxMap [] m = m"
| "ctxMap (f # fs) m = ctxMap fs (frameMap f m)"

fun startsShort :: "frame list \<Rightarrow> bool" where
  "startsShort (ShortChild c p # fs) = True"
| "startsShort _ = False"

section \<open>Transcripts\<close>

text \<open>
  What \<^verbatim>\<open>Prove\<close> records along a trail, root first: one code per frame (0 for a full
  node, the low byte of the count for a short node) and the hash of the other child of
  every full node.  \<open>fullCount\<close> counts the full nodes of a trail, and
  \<open>countsBelow b t\<close> says that every short node of \<open>t\<close> has a count below \<open>b\<close>.
\<close>

fun frameCode :: "frame \<Rightarrow> byte" where
  "frameCode (FullLeft r) = 0"
| "frameCode (FullRight l) = 0"
| "frameCode (ShortChild c p) = word_of_nat c"

fun frameHashes :: "hasher \<Rightarrow> frame \<Rightarrow> byte list list" where
  "frameHashes H (FullLeft r) = (case hashNode H r of Inr h \<Rightarrow> [h] | Inl e \<Rightarrow> [])"
| "frameHashes H (FullRight l) = (case hashNode H l of Inr h \<Rightarrow> [h] | Inl e \<Rightarrow> [])"
| "frameHashes H (ShortChild c p) = []"

definition transcript :: "hasher \<Rightarrow> byte list \<Rightarrow> byte list \<Rightarrow> frame list \<Rightarrow> Proof" where
  "transcript H key v tr =
     \<lparr>Key = key, HashValue = H leafNodeTag v,
      ShortCounts = map frameCode (rev tr),
      InterimHashes = concat (map (frameHashes H) (rev tr))\<rparr>"

fun frameIsFull :: "frame \<Rightarrow> bool" where
  "frameIsFull (ShortChild c p) = False"
| "frameIsFull _ = True"

definition fullCount :: "frame list \<Rightarrow> nat" where
  "fullCount tr = length (filter frameIsFull tr)"

fun countsBelow :: "nat \<Rightarrow> node \<Rightarrow> bool" where
  "countsBelow b Nil = True"
| "countsBelow b (Leaf v) = True"
| "countsBelow b (Short c p ch) = (c < b \<and> countsBelow b ch)"
| "countsBelow b (Full l r) = (countsBelow b l \<and> countsBelow b r)"

section \<open>Reading and writing bits\<close>

text \<open>
  What the bit utilities do inside the buffer, and that two buffers of one length
  with the same bits are equal.
\<close>

lemma ReadBit_in: "i < 8 * length b \<Longrightarrow> ReadBit b i = Inr (bitAt b i)"
  by (simp add: ReadBit_def bitAt_def less_mult_imp_div_less mult.commute)

lemma ReadBit_out: "\<not> i < 8 * length b \<Longrightarrow> ReadBit b i = Inl IndexOutOfRange"
  by (auto simp add: ReadBit_def) 

lemma div_mod_eq_iff: "(j::nat) div 8 = i div 8 \<Longrightarrow> (7 - i mod 8 = 7 - j mod 8) = (j = i)"
proof -
  assume d: "j div 8 = i div 8"
  have "i mod 8 < 8" "j mod 8 < 8" by simp_all
  then have "(7 - i mod 8 = 7 - j mod 8) = (i mod 8 = j mod 8)" by arith
  also have "\<dots> = (j = i)" using d by (metis div_mult_mod_eq)
  finally show ?thesis .
qed

lemma bitAt_update:
  assumes "i div 8 < length b"
  shows "bitAt (b[i div 8 := (if v then set_bit (7 - i mod 8) (b ! (i div 8)) else unset_bit (7 - i mod 8) (b ! (i div 8)))]) j
         = (if j = i then v else bitAt b j)"
proof (cases "j div 8 = i div 8")
  case True
  have lt: "7 - j mod 8 < 8" by simp
  from True assms show ?thesis
    using div_mod_eq_iff [OF True]
    by (auto simp add: bitAt_def bit_set_bit_iff bit_unset_bit_iff possible_bit_word)
next
  case False
  then have "j \<noteq> i" by auto
  with False show ?thesis by (simp add: bitAt_def)
qed

lemma WriteBit_in:
  assumes "i < 8 * length b"
  shows "\<exists>b'. WriteBit b i v = Inr b' \<and> length b' = length b \<and>
           (\<forall>j. bitAt b' j = (if j = i then v else bitAt b j))"
proof -
  from assms have d: "i div 8 < length b" by (simp add: less_mult_imp_div_less mult.commute)
  show ?thesis
    using bitAt_update [OF d, of True] bitAt_update [OF d, of False] d
    by (cases v) (simp_all add: WriteBit_def SetBit_def ClearBit_def)
qed

lemma SetBit_in:
  assumes "i < 8 * length b"
  shows "\<exists>b'. SetBit b i = Inr b' \<and> length b' = length b \<and>
           (\<forall>j. bitAt b' j = (if j = i then True else bitAt b j))"
  using WriteBit_in [OF assms, of True] by (simp add: WriteBit_def)

lemma bytes_eqI:
  assumes len: "length a = length b" and bits: "\<And>j. j < 8 * length a \<Longrightarrow> bitAt a j = bitAt b j"
  shows "a = b"
proof (rule nth_equalityI [OF len])
  fix k assume k: "k < length a"
  show "a ! k = b ! k"
  proof (rule bit_word_eqI)
    fix m assume m: "m < LENGTH(8)"
    then have m8: "m < 8" by simp
    define j where "j = 8 * k + (7 - m)"
    have jd: "j div 8 = k" using m8 unfolding j_def by simp
    have "j mod 8 = (7 - m) mod 8" unfolding j_def by simp
    then have jm: "j mod 8 = 7 - m" by simp
    have "j < 8 * length a" using k m8 by (simp add: j_def)
    from bits [OF this] show "bit (a ! k) m = bit (b ! k) m"
      using m8 by (simp add: bitAt_def jd jm)
  qed
qed

lemma bitAt_MakeBitVector: "j < 8 * length (MakeBitVector n) \<Longrightarrow> \<not> bitAt (MakeBitVector n) j"
  by (simp add: bitAt_def MakeBitVector_def less_mult_imp_div_less mult.commute)

lemma length_MakeBitVector [simp]: "length (MakeBitVector n) = (n + 7) div 8"
  by (simp add: MakeBitVector_def)

lemma copyBits_in:
  assumes "i \<le> n" "n + dOff \<le> 8 * length dst" "n + sOff \<le> 8 * length src"
  shows "\<exists>d. copyBits src sOff dst dOff n i = Inr d \<and> length d = length dst \<and>
           (\<forall>j. bitAt d j = (if i + dOff \<le> j \<and> j < n + dOff then bitAt src (j - dOff + sOff) else bitAt dst j))"
  using assms
proof (induction "n - i" arbitrary: i dst)
  case 0
  then have "n = i" by simp
  then show ?case by (auto simp add: copyBits.simps)
next
  case (Suc k)
  then have lt: "i < n" by simp
  have rd: "ReadBit src (i + sOff) = Inr (bitAt src (i + sOff))"
    using lt Suc.prems by (intro ReadBit_in) simp
  obtain d1 where w: "WriteBit dst (i + dOff) (bitAt src (i + sOff)) = Inr d1"
    and l1: "length d1 = length dst"
    and b1: "\<And>j. bitAt d1 j = (if j = i + dOff then bitAt src (i + sOff) else bitAt dst j)"
    using WriteBit_in [of "i + dOff" dst "bitAt src (i + sOff)"] lt Suc.prems by auto
  have "k = n - (i + 1)" using Suc.hyps by simp
  from Suc.hyps(1) [OF this, of d1] obtain d where
    c: "copyBits src sOff d1 dOff n (i + 1) = Inr d" and l: "length d = length d1"
    and b: "\<And>j. bitAt d j = (if i + 1 + dOff \<le> j \<and> j < n + dOff then bitAt src (j - dOff + sOff) else bitAt d1 j)"
    using lt Suc.prems l1 by auto
  have "copyBits src sOff dst dOff n i = Inr d"
    using lt rd w c by (subst copyBits.simps) simp
  moreover have "\<And>j. bitAt d j = (if i + dOff \<le> j \<and> j < n + dOff then bitAt src (j - dOff + sOff) else bitAt dst j)"
    using lt by (auto simp: b b1)
  ultimately show ?case using l l1 by auto
qed

section \<open>The bit loops\<close>

text \<open>
  Inside their buffers the loops do not panic: \<open>copyBits\<close> into a fresh vector
  gives a well-formed path with the copied bits, \<open>commonLoop\<close> finds the first
  position where key and path differ, \<open>matchLoop\<close> says whether there is none.
\<close>

lemma bitsOf_0 [simp]: "bitsOf b 0 = []"
  by (simp add: bitsOf_def)

lemma length_bitsOf [simp]: "length (bitsOf b n) = n"
  by (simp add: bitsOf_def)

lemma nth_bitsOf [simp]: "i < n \<Longrightarrow> bitsOf b n ! i = bitAt b i"
  by (simp add: bitsOf_def)

lemma length_keyBits [simp]: "length (keyBits key) = length key * 8"
  by (simp add: keyBits_def)

lemma bits_slice:
  "sOff + m \<le> N \<Longrightarrow> take m (drop sOff (bitsOf b N)) = map (\<lambda>j. bitAt b (j + sOff)) [0..<m]"
  by (rule nth_equalityI) (simp_all add: add.commute)

lemma bitsOf_take: "m \<le> N \<Longrightarrow> take m (bitsOf b N) = bitsOf b m"
  by (rule nth_equalityI) simp_all

lemma wfPath_eqI:
  assumes "wfPath c p" "wfPath c q" "bitsOf p c = bitsOf q c"
  shows "p = q"
proof (rule bytes_eqI)
  show len: "length p = length q" using assms by (simp add: wfPath_def)
  fix j assume j: "j < 8 * length p"
  show "bitAt p j = bitAt q j"
  proof (cases "j < c")
    case True
    then have "bitsOf p c ! j = bitsOf q c ! j" using assms(3) by simp
    with True show ?thesis by simp
  next
    case False
    with j len assms(1,2) show ?thesis by (simp add: wfPath_def)
  qed
qed

lemma copyBits_fresh:
  assumes "n + sOff \<le> 8 * length src"
  shows "\<exists>d. copyBits src sOff (MakeBitVector n) 0 n 0 = Inr d \<and> wfPath n d \<and>
           bitsOf d n = map (\<lambda>j. bitAt src (j + sOff)) [0..<n]"
proof -
  have "n + 0 \<le> 8 * length (MakeBitVector n)" by simp
  from copyBits_in [OF _ this assms, of 0] obtain d where
    c: "copyBits src sOff (MakeBitVector n) 0 n 0 = Inr d" and l: "length d = length (MakeBitVector n)"
    and b: "\<And>j. bitAt d j = (if j < n then bitAt src (j + sOff) else bitAt (MakeBitVector n) j)"
    by auto
  have "wfPath n d"
    using l b bitAt_MakeBitVector [of _ n] by (auto simp: wfPath_def)
  moreover have "bitsOf d n = map (\<lambda>j. bitAt src (j + sOff)) [0..<n]"
    by (rule nth_equalityI) (simp_all add: b)
  ultimately show ?thesis using c by blast
qed

lemma commonLoop_in:
  assumes "i \<le> n" "index + n \<le> 8 * length key" "n \<le> 8 * length p"
  shows "\<exists>cc. commonLoop key index p n i = Inr cc \<and> i \<le> cc \<and> cc \<le> n \<and>
           (\<forall>m. i \<le> m \<and> m < cc \<longrightarrow> bitAt key (m + index) = bitAt p m) \<and>
           (cc < n \<longrightarrow> bitAt key (cc + index) \<noteq> bitAt p cc)"
  using assms
proof (induction "n - i" arbitrary: i)
  case 0
  then have "n = i" by simp
  then show ?case by (auto simp add: commonLoop.simps)
next
  case (Suc k)
  then have lt: "i < n" by simp
  have rk: "ReadBit key (i + index) = Inr (bitAt key (i + index))"
    using lt Suc.prems by (intro ReadBit_in) simp
  have rp: "ReadBit p i = Inr (bitAt p i)"
    using lt Suc.prems by (intro ReadBit_in) simp
  show ?case
  proof (cases "bitAt key (i + index) = bitAt p i")
    case False
    then have "commonLoop key index p n i = Inr i"
      using lt rk rp by (subst commonLoop.simps) simp
    with False lt show ?thesis by auto
  next
    case True
    have "k = n - (i + 1)" using Suc.hyps by simp
    from Suc.hyps(1) [OF this] obtain cc where
      c: "commonLoop key index p n (i + 1) = Inr cc" and r: "i + 1 \<le> cc" "cc \<le> n"
      and m: "\<And>m. i + 1 \<le> m \<and> m < cc \<Longrightarrow> bitAt key (m + index) = bitAt p m"
      and d: "cc < n \<longrightarrow> bitAt key (cc + index) \<noteq> bitAt p cc"
      using lt Suc.prems by auto
    have "commonLoop key index p n i = Inr cc"
      using lt rk rp True c by (subst commonLoop.simps) simp
    moreover have "\<And>m. i \<le> m \<and> m < cc \<Longrightarrow> bitAt key (m + index) = bitAt p m"
    proof -
      fix m assume "i \<le> m \<and> m < cc"
      then show "bitAt key (m + index) = bitAt p m"
        using m [of m] True by (cases "m = i") auto
    qed
    ultimately show ?thesis using r d by auto
  qed
qed

lemma matchLoop_in:
  assumes "i \<le> n" "index + n \<le> 8 * length key" "n \<le> 8 * length p"
  shows "matchLoop key index p n i = Inr (\<forall>m. i \<le> m \<and> m < n \<longrightarrow> bitAt key (m + index) = bitAt p m)"
  using assms
proof (induction "n - i" arbitrary: i)
  case 0
  then have "n = i" by simp
  then show ?case by (auto simp add: matchLoop.simps)
next
  case (Suc k)
  then have lt: "i < n" by simp
  have rk: "ReadBit key (i + index) = Inr (bitAt key (i + index))"
    using lt Suc.prems by (intro ReadBit_in) simp
  have rp: "ReadBit p i = Inr (bitAt p i)"
    using lt Suc.prems by (intro ReadBit_in) simp
  show ?case
  proof (cases "bitAt key (i + index) = bitAt p i")
    case False
    then have "matchLoop key index p n i = Inr False"
      using lt rk rp by (subst matchLoop.simps) simp
    with False lt show ?thesis by auto
  next
    case True
    have "k = n - (i + 1)" using Suc.hyps by simp
    from Suc.hyps(1) [OF this] have
      c: "matchLoop key index p n (i + 1) = Inr (\<forall>m. i + 1 \<le> m \<and> m < n \<longrightarrow> bitAt key (m + index) = bitAt p m)"
      using lt Suc.prems by auto
    have "matchLoop key index p n i = Inr (\<forall>m. i + 1 \<le> m \<and> m < n \<longrightarrow> bitAt key (m + index) = bitAt p m)"
      using lt rk rp True c by (subst matchLoop.simps) simp
    moreover have "(\<forall>m. i + 1 \<le> m \<and> m < n \<longrightarrow> bitAt key (m + index) = bitAt p m)
        = (\<forall>m. i \<le> m \<and> m < n \<longrightarrow> bitAt key (m + index) = bitAt p m)"
      using True by (metis Suc_eq_plus1 Suc_leI le_neq_implies_less add_leD1 le_add1 plus_1_eq_Suc  order_refl)
    ultimately show ?thesis by simp
  qed
qed

section \<open>Key/value maps\<close>

lemma pre_Nil [simp]: "pre [] m = m"
  by (simp add: pre_def)

lemma pre_app [simp]: "pre as m (as @ ys) = m ys"
  by (simp add: pre_def)

lemma pre_not [simp]: "take (length as) xs \<noteq> as \<Longrightarrow> pre as m xs = None"
  by (simp add: pre_def)

lemma pre_cases:
  obtains (hit) zs where "xs = as @ zs" | (miss) "take (length as) xs \<noteq> as"
  by (metis append_take_drop_id)

lemma pre_append: "pre (as @ bs) m = pre as (pre bs m)"
proof (rule ext)
  fix x
  show "pre (as @ bs) m x = pre as (pre bs m) x"
  proof (cases x as rule: pre_cases)
    case (hit zs)
    show ?thesis
    proof (cases zs bs rule: pre_cases)
      case (hit ws)
      with \<open>x = as @ zs\<close> have "x = (as @ bs) @ ws" by simp
      then have "pre (as @ bs) m x = m ws" by (simp only: pre_app)
      then show ?thesis using hit \<open>x = as @ zs\<close> by simp
    next
      case miss
      then have "take (length (as @ bs)) x \<noteq> as @ bs"
        using \<open>x = as @ zs\<close> by simp
      then show ?thesis using miss \<open>x = as @ zs\<close> by simp
    qed
  next
    case miss
    then have "take (length (as @ bs)) x \<noteq> as @ bs"
      by (metis append_eq_conv_conj length_append take_add take_all_iff linorder_le_cases take_take min.absorb1 le_add1 append_take_drop_id)
    with miss show ?thesis by simp
  qed
qed

lemma pre_upd: "(pre as m)(as @ ys \<mapsto> v) = pre as (m(ys \<mapsto> v))"
proof (rule ext)
  fix x
  show "((pre as m)(as @ ys \<mapsto> v)) x = pre as (m(ys \<mapsto> v)) x"
  proof (cases x as rule: pre_cases)
    case (hit zs)
    then show ?thesis by simp
  next
    case miss
    then have "x \<noteq> as @ ys" by auto
    with miss show ?thesis by simp
  qed
qed

lemma pre_del: "(pre as m)(as @ ys := None) = pre as (m(ys := None))"
proof (rule ext)
  fix x
  show "((pre as m)(as @ ys := None)) x = pre as (m(ys := None)) x"
  proof (cases x as rule: pre_cases)
    case (hit zs)
    then show ?thesis by simp
  next
    case miss
    then have "x \<noteq> as @ ys" by auto
    with miss show ?thesis by simp
  qed
qed

lemma pre_Cons: "pre (b # bs) m = fork (if b then Map.empty else pre bs m) (if b then pre bs m else Map.empty)"
  by (rule ext) (auto simp add: pre_def fork_def split: list.splits)

lemma fork_upd: "(fork l r)(b # ys \<mapsto> v) = (if b then fork l (r(ys \<mapsto> v)) else fork (l(ys \<mapsto> v)) r)"
  by (rule ext) (auto simp add: fork_def split: list.splits)

lemma fork_del: "(fork l r)(b # ys := None) = (if b then fork l (r(ys := None)) else fork (l(ys := None)) r)"
  by (rule ext) (auto simp add: fork_def split: list.splits)

lemma fork_Cons [simp]: "fork l r (b # ys) = (if b then r ys else l ys)"
  by (simp add: fork_def)

lemma fork_Nil [simp]: "fork l r [] = None"
  by (simp add: fork_def)

lemma single_pre: "[ys \<mapsto> v] = pre ys [[] \<mapsto> v]"
  by (rule ext) (auto simp add: pre_def)

lemma kvOf_length: "wfNode n t \<Longrightarrow> kvOf t xs = Some v \<Longrightarrow> length xs = n"
proof (induction t arbitrary: n xs)
  case (Short c p ch)
  from Short.prems have "take c xs = bitsOf p c" "kvOf ch (drop c xs) = Some v"
    by (auto simp: pre_def split: if_splits)
  moreover from this(1) have "c \<le> length xs"
    by (metis length_bitsOf length_take min.cobounded1)
  ultimately show ?case using Short.IH [of "n - c" "drop c xs"] Short.prems(1) by auto
next
  case (Full l r)
  then show ?case by (cases xs) (auto split: if_splits)
qed (auto split: if_splits)

section \<open>Put is correct\<close>

text \<open>
  On a well-formed node \<^verbatim>\<open>unsafePut\<close> does not panic, keeps the node well formed,
  updates the map at the key and nowhere else, and returns whether the key was there.
\<close>

lemma drop_keyBits_Cons:
  "index < length key * 8 \<Longrightarrow>
     drop index (keyBits key) = bitAt key index # drop (index + 1) (keyBits key)"
  by (simp add: keyBits_def Cons_nth_drop_Suc [symmetric])

lemma take_drop_keyBits:
  "index + c \<le> length key * 8 \<Longrightarrow>
     take c (drop index (keyBits key)) = map (\<lambda>j. bitAt key (j + index)) [0..<c]"
  by (simp add: keyBits_def bits_slice)

lemma wfPath_bound: "wfPath c p \<Longrightarrow> c \<le> 8 * length p"
  by (simp add: wfPath_def)

lemma split_sem:
  "(pre (a @ pbit # p2) M)(a @ (\<not> pbit) # k2 \<mapsto> v)
     = pre a (if pbit then fork [k2 \<mapsto> v] (pre p2 M) else fork (pre p2 M) [k2 \<mapsto> v])"
  by (simp add: pre_append pre_upd pre_Cons fork_upd)

lemma putNil_correct:
  assumes "index + n = length key * 8"
  shows "\<exists>t'. putNil key v index = Inr t' \<and> wfNode n t' \<and>
           kvOf t' = [drop index (keyBits key) \<mapsto> v]"
proof (cases "n = 0")
  case True
  with assms show ?thesis by (simp add: putNil_def)
next
  case False
  with assms have lt: "index < length key * 8" and fc: "length key * 8 - index = n" by auto
  have "n + index \<le> 8 * length key" using assms by simp
  from copyBits_fresh [OF this] obtain d where
    c: "copyBits key index (MakeBitVector n) 0 n 0 = Inr d" and w: "wfPath n d"
    and b: "bitsOf d n = map (\<lambda>j. bitAt key (j + index)) [0..<n]" by blast
  have "take n (drop index (keyBits key)) = drop index (keyBits key)"
    using assms by simp
  then have bk: "bitsOf d n = drop index (keyBits key)"
    using b take_drop_keyBits [of index n key] assms by simp
  have "putNil key v index = Inr (Short n d (Leaf v))"
    using lt fc c by (simp add: putNil_def)
  moreover have "wfNode n (Short n d (Leaf v))" using False w by simp
  moreover have "kvOf (Short n d (Leaf v)) = [drop index (keyBits key) \<mapsto> v]"
    by (simp add: bk single_pre [symmetric])
  ultimately show ?thesis by blast
qed

lemma putNode_correct:
  assumes "wfNode n t" "index + n = length key * 8"
  shows "\<exists>t'. putNode key v index t = Inr (t', kvOf t (drop index (keyBits key)) \<noteq> None) \<and>
           wfNode n t' \<and> kvOf t' = (kvOf t)(drop index (keyBits key) \<mapsto> v) \<and>
           (isShort t' \<longrightarrow> isShort t)"
  using assms
proof (induction t arbitrary: n index)
  case Nil
  then show ?case by simp
next
  case (Leaf old)
  then have "drop index (keyBits key) = []" by simp
  with Leaf show ?case by (simp add: fun_eq_iff)
next
  case (Full l r)
  let ?ks = "drop index (keyBits key)"
  let ?ks' = "drop (index + 1) (keyBits key)"
  from Full.prems have n1: "1 \<le> n" and wl: "wfNode (n - 1) l" and wr: "wfNode (n - 1) r" by auto
  from Full.prems n1 have lt: "index < length key * 8" and ix: "index + 1 + (n - 1) = length key * 8"
    by auto
  have rd: "ReadBit key index = Inr (bitAt key index)"
    using lt by (intro ReadBit_in) simp
  have ks: "?ks = bitAt key index # ?ks'" using lt by (rule drop_keyBits_Cons)
  show ?case
  proof (cases "bitAt key index")
    case False
    from Full.IH(1) [OF wl ix] obtain l' where
      p: "putNode key v (index + 1) l = Inr (l', kvOf l ?ks' \<noteq> None)" and w: "wfNode (n - 1) l'"
      and k: "kvOf l' = (kvOf l)(?ks' \<mapsto> v)" by blast
    have "putNode key v index (Full l r) = Inr (Full l' r, kvOf (Full l r) ?ks \<noteq> None)"
      using rd False p by (simp add: ks)
    moreover have "wfNode n (Full l' r)" using n1 w wr by simp
    moreover have "kvOf (Full l' r) = (kvOf (Full l r))(?ks \<mapsto> v)"
      using False by (simp add: ks fork_upd k)
    ultimately show ?thesis by fastforce
  next
    case True
    from Full.IH(2) [OF wr ix] obtain r' where
      p: "putNode key v (index + 1) r = Inr (r', kvOf r ?ks' \<noteq> None)" and w: "wfNode (n - 1) r'"
      and k: "kvOf r' = (kvOf r)(?ks' \<mapsto> v)" by blast
    have "putNode key v index (Full l r) = Inr (Full l r', kvOf (Full l r) ?ks \<noteq> None)"
      using rd True p by (simp add: ks)
    moreover have "wfNode n (Full l r')" using n1 w wl by simp
    moreover have "kvOf (Full l r') = (kvOf (Full l r))(?ks \<mapsto> v)"
      using True by (simp add: ks fork_upd k)
    ultimately show ?thesis by fastforce
  qed
next
  case (Short c p ch)
  let ?ks = "drop index (keyBits key)"
  let ?pb = "bitsOf p c"
  from Short.prems have c1: "1 \<le> c" and cn: "c \<le> n" and wp: "wfPath c p"
    and ns: "\<not> isShort ch" and wch: "wfNode (n - c) ch" by auto
  have cp: "c \<le> 8 * length p" using wp by (rule wfPath_bound)
  have ik: "index + c \<le> 8 * length key" using Short.prems cn by simp
  have lks: "length ?ks = n" using Short.prems by simp
  from commonLoop_in [OF _ ik cp, of 0] obtain cc where
    cl: "commonLoop key index p c 0 = Inr cc" and ccc: "cc \<le> c"
    and eq: "\<And>m. m < cc \<Longrightarrow> bitAt key (m + index) = bitAt p m"
    and ne: "cc < c \<longrightarrow> bitAt key (cc + index) \<noteq> bitAt p cc" by auto
  have tk: "take cc ?ks = bitsOf p cc"
  proof -
    have "take cc ?ks = map (\<lambda>j. bitAt key (j + index)) [0..<cc]"
      using ccc ik by (intro take_drop_keyBits) simp
    also have "\<dots> = bitsOf p cc" by (simp add: bitsOf_def eq)
    finally show ?thesis .
  qed
  show ?case
  proof (cases "cc = c")
    case True
    let ?ks' = "drop (index + c) (keyBits key)"
    have ix: "index + c + (n - c) = length key * 8" using Short.prems cn by simp
    from Short.IH [OF wch ix] obtain ch' where
      p: "putNode key v (index + c) ch = Inr (ch', kvOf ch ?ks' \<noteq> None)"
      and w: "wfNode (n - c) ch'" and k: "kvOf ch' = (kvOf ch)(?ks' \<mapsto> v)"
      and s: "isShort ch' \<longrightarrow> isShort ch" by blast
    have ks: "?ks = ?pb @ ?ks'"
      using tk True by (metis append_take_drop_id drop_drop add.commute)
    have "putNode key v index (Short c p ch) = Inr (Short c p ch', kvOf (Short c p ch) ?ks \<noteq> None)"
      using cl True p by (simp add: ks)
    moreover have "wfNode n (Short c p ch')" using c1 cn wp ns s w by simp
    moreover have "kvOf (Short c p ch') = (kvOf (Short c p ch))(?ks \<mapsto> v)"
      by (simp add: ks pre_upd k)
    ultimately show ?thesis by fastforce
  next
    case False
    with ccc have lt: "cc < c" by simp
    with ne have nb: "bitAt key (cc + index) = (\<not> bitAt p cc)" by simp
    let ?a = "bitsOf p cc"
    let ?k2 = "drop (index + cc + 1) (keyBits key)"
    let ?p2 = "drop (cc + 1) ?pb"
    let ?rc = "c - cc - 1"
    have ii: "index + cc < length key * 8" using lt ik by simp
    have ks: "?ks = ?a @ (\<not> bitAt p cc) # ?k2"
    proof -
      have "?ks = take cc ?ks @ drop cc ?ks" by (rule append_take_drop_id [symmetric])
      also have "drop cc ?ks = drop (index + cc) (keyBits key)" by (simp add: add.commute)
      also have "\<dots> = bitAt key (index + cc) # ?k2" using ii by (rule drop_keyBits_Cons)
      finally show ?thesis using tk nb by (simp add: add.commute)
    qed
    have pb: "?pb = ?a @ bitAt p cc # ?p2"
    proof -
      have "?pb = take cc ?pb @ drop cc ?pb" by (rule append_take_drop_id [symmetric])
      also have "take cc ?pb = ?a" using lt by (simp add: bitsOf_take)
      also have "drop cc ?pb = ?pb ! cc # ?p2" using lt by (simp flip: Cons_nth_drop_Suc)
      finally show ?thesis using lt by simp
    qed
    \<comment> \<open>the common short node\<close>
    have "\<exists>d. (if cc > 0 then copyBits key index (MakeBitVector cc) 0 cc 0 else Inr []) = Inr d
             \<and> (cc > 0 \<longrightarrow> wfPath cc d \<and> bitsOf d cc = ?a)"
    proof (cases "cc > 0")
      case True
      have "cc + index \<le> 8 * length key" using ii by simp
      from copyBits_fresh [OF this] obtain d where
        "copyBits key index (MakeBitVector cc) 0 cc 0 = Inr d" "wfPath cc d"
        "bitsOf d cc = map (\<lambda>j. bitAt key (j + index)) [0..<cc]" by blast
      moreover have "map (\<lambda>j. bitAt key (j + index)) [0..<cc] = ?a" by (simp add: bitsOf_def eq)
      ultimately show ?thesis using True by simp
    qed simp
    then obtain d where cd: "(if cc > 0 then copyBits key index (MakeBitVector cc) 0 cc 0 else Inr []) = Inr d"
      and wd: "cc > 0 \<Longrightarrow> wfPath cc d" and bd: "cc > 0 \<Longrightarrow> bitsOf d cc = ?a" by blast
    have rb: "ReadBit p cc = Inr (bitAt p cc)" using lt cp by (intro ReadBit_in) simp
    \<comment> \<open>the rest of the old short node\<close>
    have "\<exists>rm. (if ?rc > 0
                 then bindE (copyBits p (cc + 1) (MakeBitVector ?rc) 0 ?rc 0)
                        (\<lambda>remainPath. Inr (Short ?rc remainPath ch))
                 else Inr ch) = Inr rm
             \<and> wfNode (n - cc - 1) rm \<and> kvOf rm = pre ?p2 (kvOf ch)"
    proof (cases "?rc > 0")
      case True
      have "?rc + (cc + 1) \<le> 8 * length p" using lt cp by simp
      from copyBits_fresh [OF this] obtain rp where
        c: "copyBits p (cc + 1) (MakeBitVector ?rc) 0 ?rc 0 = Inr rp" and w: "wfPath ?rc rp"
        and b: "bitsOf rp ?rc = map (\<lambda>j. bitAt p (j + (cc + 1))) [0..<?rc]" by blast
      have "?p2 = take ?rc (drop (cc + 1) (bitsOf p c))" by simp
      also have "\<dots> = map (\<lambda>j. bitAt p (j + (cc + 1))) [0..<?rc]"
        using lt by (intro bits_slice) simp
      finally have b2: "bitsOf rp ?rc = ?p2" using b by simp
      have "n - cc - 1 - ?rc = n - c" using lt cn by simp
      then have "wfNode (n - cc - 1) (Short ?rc rp ch)"
        using True w ns wch lt cn by (simp; arith)
      moreover have "kvOf (Short ?rc rp ch) = pre ?p2 (kvOf ch)" using b2 by simp
      ultimately show ?thesis using True c by simp
    next
      case False
      then have "c = cc + 1" using lt by simp
      then show ?thesis using False wch by simp
    qed
    then obtain rm where crm: "(if ?rc > 0
                 then bindE (copyBits p (cc + 1) (MakeBitVector ?rc) 0 ?rc 0)
                        (\<lambda>remainPath. Inr (Short ?rc remainPath ch))
                 else Inr ch) = Inr rm"
      and wrm: "wfNode (n - cc - 1) rm" and krm: "kvOf rm = pre ?p2 (kvOf ch)" by blast
    \<comment> \<open>the new leaf\<close>
    have "index + cc + 1 + (n - cc - 1) = length key * 8" using Short.prems lt cn by simp
    from putNil_correct [OF this] obtain nw where
      pn: "putNil key v (index + cc + 1) = Inr nw" and wn: "wfNode (n - cc - 1) nw"
      and kn: "kvOf nw = [?k2 \<mapsto> v]" by blast
    let ?split = "if bitAt p cc then Full nw rm else Full rm nw"
    let ?res = "if cc > 0 then Short cc d ?split else ?split"
    have run: "putNode key v index (Short c p ch) = Inr (?res, False)"
      by (simp only: putNode.simps cl bindE_Inr False if_False Let_def cd rb crm pn)
    have n1: "1 \<le> n - cc" using lt cn by simp
    have wsplit: "wfNode (n - cc) ?split" using n1 wn wrm by simp
    have ksplit: "kvOf ?split = (if bitAt p cc then fork [?k2 \<mapsto> v] (pre ?p2 (kvOf ch))
                                 else fork (pre ?p2 (kvOf ch)) [?k2 \<mapsto> v])"
      by (simp add: kn krm)
    have wres: "wfNode n ?res" using wsplit wd lt cn by auto
    have "kvOf ?res = pre ?a (kvOf ?split)" using bd by auto
    also have "\<dots> = (pre (?a @ bitAt p cc # ?p2) (kvOf ch))(?a @ (\<not> bitAt p cc) # ?k2 \<mapsto> v)"
      unfolding ksplit by (rule split_sem [symmetric])
    also have "\<dots> = (kvOf (Short c p ch))(?ks \<mapsto> v)"
      using pb ks by simp
    finally have kres: "kvOf ?res = (kvOf (Short c p ch))(?ks \<mapsto> v)" .
    have "take (length ?pb) ?ks \<noteq> ?pb"
    proof
      assume "take (length ?pb) ?ks = ?pb"
      then have "take (length ?pb) ?ks ! cc = ?pb ! cc" by simp
      then have "?ks ! cc = ?pb ! cc" using lt by simp
      moreover have "?ks ! cc = (\<not> bitAt p cc)"
        by (subst ks) (simp add: nth_append)
      ultimately show False using lt by simp
    qed
    then have none: "kvOf (Short c p ch) ?ks = None" by simp
    show ?thesis using run wres kres none by (auto split: if_splits)
  qed
qed

section \<open>Get is correct\<close>

lemma getNode_correct:
  assumes "wfNode n t" "index + n = length key * 8"
  shows "getNode key index t =
           Inr (case kvOf t (drop index (keyBits key)) of None \<Rightarrow> ([], False) | Some v \<Rightarrow> (v, True))"
  using assms
proof (induction t arbitrary: n index)
  case Nil
  then show ?case by simp
next
  case (Leaf v)
  then have "drop index (keyBits key) = []" by simp
  then show ?case by simp
next
  case (Full l r)
  from Full.prems have n1: "1 \<le> n" and wl: "wfNode (n - 1) l" and wr: "wfNode (n - 1) r" by auto
  from Full.prems n1 have lt: "index < length key * 8" and ix: "index + 1 + (n - 1) = length key * 8"
    by auto
  have rd: "ReadBit key index = Inr (bitAt key index)"
    using lt by (intro ReadBit_in) simp
  have ks: "drop index (keyBits key) = bitAt key index # drop (index + 1) (keyBits key)"
    using lt by (rule drop_keyBits_Cons)
  show ?case
    using Full.IH(1) [OF wl ix] Full.IH(2) [OF wr ix] rd by (simp add: ks)
next
  case (Short c p ch)
  let ?ks = "drop index (keyBits key)"
  from Short.prems have c1: "1 \<le> c" and cn: "c \<le> n" and wp: "wfPath c p"
    and wch: "wfNode (n - c) ch" by auto
  have cp: "c \<le> 8 * length p" using wp by (rule wfPath_bound)
  have ik: "index + c \<le> 8 * length key" using Short.prems cn by simp
  have ix: "index + c + (n - c) = length key * 8" using Short.prems cn by simp
  have ml: "matchLoop key index p c 0 = Inr (\<forall>m. m < c \<longrightarrow> bitAt key (m + index) = bitAt p m)"
    using matchLoop_in [OF _ ik cp, of 0] by simp
  have tk: "take c ?ks = map (\<lambda>j. bitAt key (j + index)) [0..<c]"
    using ik by (intro take_drop_keyBits) simp
  have iff: "(\<forall>m. m < c \<longrightarrow> bitAt key (m + index) = bitAt p m) \<longleftrightarrow> take c ?ks = bitsOf p c"
    unfolding tk bitsOf_def by (auto simp: list_eq_iff_nth_eq)
  show ?case
  proof (cases "take c ?ks = bitsOf p c")
    case True
    then have "?ks = bitsOf p c @ drop (index + c) (keyBits key)"
      by (metis append_take_drop_id drop_drop add.commute)
    then have "kvOf (Short c p ch) ?ks = kvOf ch (drop (index + c) (keyBits key))"
      by simp
    then show ?thesis using ml iff True Short.IH [OF wch ix] by simp
  next
    case False
    then have "kvOf (Short c p ch) ?ks = None" by simp
    then show ?thesis using ml iff False by simp
  qed
qed

lemma keyBits_inj: "keyBits a = keyBits b \<Longrightarrow> a = b"
proof (rule bytes_eqI)
  assume e: "keyBits a = keyBits b"
  then have "length (keyBits a) = length (keyBits b)" by simp
  then show len: "length a = length b" by simp
  fix j assume j: "j < 8 * length a"
  then have "keyBits a ! j = bitAt a j" "keyBits b ! j = bitAt b j"
    using len by (simp_all add: keyBits_def)
  with e show "bitAt a j = bitAt b j" by simp
qed

lemma NewTree_wf: "NewTree kl = Inr t \<Longrightarrow> wfTree t \<and> keyLength t = kl \<and> root t = Nil"
  by (auto simp: NewTree_def wfTree_def split: if_splits)

lemma Put_correct:
  assumes "wfTree t" "int (length key) = keyLength t"
  shows "\<exists>t'. Put t key v = Inr (t', treeMap t key \<noteq> None) \<and> wfTree t' \<and>
           keyLength t' = keyLength t \<and> root t' \<noteq> Nil \<and>
           kvOf (root t') = (kvOf (root t))(keyBits key \<mapsto> v)"
proof -
  have n: "nat (keyLength t) * 8 = length key * 8" using assms by auto
  have "\<exists>r. putNode key v 0 (root t) = Inr (r, kvOf (root t) (keyBits key) \<noteq> None) \<and>
          wfNode (length key * 8) r \<and> kvOf r = (kvOf (root t))(keyBits key \<mapsto> v)"
  proof (cases "root t = Nil")
    case True
    from putNil_correct [of 0 "length key * 8" key v] obtain r where
      "putNil key v 0 = Inr r" "wfNode (length key * 8) r" "kvOf r = [keyBits key \<mapsto> v]" by auto
    then show ?thesis using True by simp
  next
    case False
    then have "wfNode (length key * 8) (root t)" using assms n by (simp add: wfTree_def)
    from putNode_correct [where index = 0 and key = key and v = v, OF this] show ?thesis by auto
  qed
  then obtain r where p: "putNode key v 0 (root t) = Inr (r, kvOf (root t) (keyBits key) \<noteq> None)"
    and w: "wfNode (length key * 8) r" and k: "kvOf r = (kvOf (root t))(keyBits key \<mapsto> v)" by blast
  have "r \<noteq> Nil" using w by auto
  then show ?thesis
    using assms p w k n by (simp add: Put_def unsafePut_def treeMap_def wfTree_def)
qed

lemma Put_wrong_length:
  "int (length key) \<noteq> keyLength t \<Longrightarrow> Put t key v = Inl ErrorIncompatibleKeyLength"
  by (simp add: Put_def)

lemma kvOf_wrong_length:
  assumes "wfTree t" "keyLength t \<noteq> int (length key)"
  shows "kvOf (root t) (keyBits key) = None"
proof (cases "root t = Nil")
  case False
  with assms have w: "wfNode (nat (keyLength t) * 8) (root t)" by (simp add: wfTree_def)
  show ?thesis
  proof (rule ccontr)
    assume "kvOf (root t) (keyBits key) \<noteq> None"
    then obtain v where "kvOf (root t) (keyBits key) = Some v" by auto
    from kvOf_length [OF w this] assms show False by (auto simp: wfTree_def)
  qed
qed simp

lemma Get_correct:
  assumes "wfTree t"
  shows "Get t key = Inr (case treeMap t key of None \<Rightarrow> ([], False) | Some v \<Rightarrow> (v, True))"
proof (cases "root t = Nil \<or> keyLength t \<noteq> int (length key)")
  case True
  then have "treeMap t key = None"
    using kvOf_wrong_length [OF assms, of key] by (auto simp: treeMap_def)
  with True show ?thesis by (auto simp: Get_def)
next
  case False
  then have w: "wfNode (length key * 8) (root t)" using assms by (auto simp: wfTree_def)
  from getNode_correct [OF this, of 0] False show ?thesis
    by (simp add: Get_def unsafeGet_def treeMap_def)
qed

lemma putAll_correct:
  assumes "wfTree t" "\<forall>(key, v) \<in> set ps. int (length key) = keyLength t"
  shows "\<exists>t'. putAll t ps = Inr t' \<and> wfTree t' \<and> keyLength t' = keyLength t \<and>
           (ps \<noteq> [] \<longrightarrow> root t' \<noteq> Nil) \<and>
           kvOf (root t') = kvOf (root t) ++ map_of (rev (map (\<lambda>(key, v). (keyBits key, v)) ps))"
  using assms
proof (induction ps arbitrary: t)
  case Nil
  then show ?case by simp
next
  case (Cons kv ps)
  obtain key v where kv: "kv = (key, v)" by (cases kv)
  from Cons.prems kv have len: "int (length key) = keyLength t" by simp
  from Put_correct [OF Cons.prems(1) len, of v] obtain t1 where
    p: "Put t key v = Inr (t1, treeMap t key \<noteq> None)" and w: "wfTree t1"
    and kl: "keyLength t1 = keyLength t" and nn: "root t1 \<noteq> Nil"
    and k: "kvOf (root t1) = (kvOf (root t))(keyBits key \<mapsto> v)" by blast
  have "\<forall>(key, v) \<in> set ps. int (length key) = keyLength t1" using Cons.prems(2) kl by simp
  from Cons.IH [OF w this] obtain t' where
    pa: "putAll t1 ps = Inr t'" and w': "wfTree t'" and kl': "keyLength t' = keyLength t1"
    and nn': "ps \<noteq> [] \<longrightarrow> root t' \<noteq> Nil"
    and k': "kvOf (root t') = kvOf (root t1) ++ map_of (rev (map (\<lambda>(key, v). (keyBits key, v)) ps))"
    by blast
  have "putAll t (kv # ps) = Inr t'" using p pa kv by simp
  moreover have "root t' \<noteq> Nil" using nn nn' pa by (cases ps) auto
  moreover have "kvOf (root t') = kvOf (root t) ++ map_of (rev (map (\<lambda>(key, v). (keyBits key, v)) (kv # ps)))"
    unfolding k' k kv by (rule ext) (simp add: map_add_def split: option.splits)
  ultimately show ?case using w' kl' kl by auto
qed

section \<open>The canonical form is unique\<close>

text \<open>
  Two well-formed trees of the same depth with the same key/value map are the same
  tree: the path of a short node is the longest common prefix of the keys below it.
\<close>

lemma wfNode_nonempty: "wfNode n t \<Longrightarrow> \<exists>xs. kvOf t xs \<noteq> None"
proof (induction t arbitrary: n)
  case (Short c p ch)
  from Short.prems have "wfNode (n - c) ch" by simp
  from Short.IH [OF this] obtain ys where "kvOf ch ys \<noteq> None" by blast
  then have "kvOf (Short c p ch) (bitsOf p c @ ys) \<noteq> None" by simp
  then show ?case by blast
next
  case (Full l r)
  from Full.prems have "wfNode (n - 1) l" by simp
  from Full.IH(1) [OF this] obtain ys where "kvOf l ys \<noteq> None" by blast
  then have "kvOf (Full l r) (False # ys) \<noteq> None" by simp
  then show ?case by blast
qed auto

lemma wfNode_Full_both:
  assumes "wfNode n (Full l r)"
  shows "\<exists>ys. kvOf (Full l r) (b # ys) \<noteq> None"
proof -
  from assms have "wfNode (n - 1) l" "wfNode (n - 1) r" by auto
  then obtain ys zs where "kvOf l ys \<noteq> None" "kvOf r zs \<noteq> None"
    using wfNode_nonempty by blast
  then show ?thesis by (cases b) auto
qed

lemma kvOf_Short_prefix: "kvOf (Short c p ch) xs \<noteq> None \<Longrightarrow> take c xs = bitsOf p c"
  by (rule ccontr) simp

lemma fork_eqD: "fork l1 r1 = fork l2 r2 \<Longrightarrow> l1 = l2 \<and> r1 = r2"
proof
  assume e: "fork l1 r1 = fork l2 r2"
  show "l1 = l2"
  proof (rule ext)
    fix ys from e have "fork l1 r1 (False # ys) = fork l2 r2 (False # ys)" by simp
    then show "l1 ys = l2 ys" by simp
  qed
  show "r1 = r2"
  proof (rule ext)
    fix ys from e have "fork l1 r1 (True # ys) = fork l2 r2 (True # ys)" by simp
    then show "r1 ys = r2 ys" by simp
  qed
qed

lemma pre_eqD: "pre b m1 = pre b m2 \<Longrightarrow> m1 = m2"
proof (rule ext)
  fix ys assume "pre b m1 = pre b m2"
  then have "pre b m1 (b @ ys) = pre b m2 (b @ ys)" by simp
  then show "m1 ys = m2 ys" by simp
qed

lemma short_full_differ:
  assumes "wfNode n (Short c p ch)" "wfNode n (Full l r)"
  shows "kvOf (Short c p ch) \<noteq> kvOf (Full l r)"
proof
  assume e: "kvOf (Short c p ch) = kvOf (Full l r)"
  from assms(1) have c1: "0 < c" by simp
  from wfNode_Full_both [OF assms(2), of "\<not> bitAt p 0"] obtain ys where
    "kvOf (Full l r) ((\<not> bitAt p 0) # ys) \<noteq> None" by blast
  with e have "kvOf (Short c p ch) ((\<not> bitAt p 0) # ys) \<noteq> None" by simp
  then have "take c ((\<not> bitAt p 0) # ys) = bitsOf p c" by (rule kvOf_Short_prefix)
  then have "take c ((\<not> bitAt p 0) # ys) ! 0 = bitsOf p c ! 0" by simp
  with c1 show False by simp
qed

lemma short_count_less:
  assumes w1: "wfNode n (Short c1 p1 ch1)" and w2: "wfNode n (Short c2 p2 ch2)"
    and e: "kvOf (Short c1 p1 ch1) = kvOf (Short c2 p2 ch2)" and lt: "c1 < c2"
  shows False
proof -
  from w1 have ns: "\<not> isShort ch1" and wc: "wfNode (n - c1) ch1" by auto
  from w2 lt have pos: "0 < n - c1" by auto
  from ns wc pos obtain l r where ch1: "ch1 = Full l r" by (cases ch1) auto
  define b where "b = (\<not> bitsOf p2 c2 ! c1)"
  from wfNode_Full_both [of "n - c1" l r b] wc ch1 obtain ys where
    "kvOf ch1 (b # ys) \<noteq> None" by auto
  then have "kvOf (Short c1 p1 ch1) (bitsOf p1 c1 @ b # ys) \<noteq> None" by simp
  with e have "kvOf (Short c2 p2 ch2) (bitsOf p1 c1 @ b # ys) \<noteq> None" by simp
  then have "take c2 (bitsOf p1 c1 @ b # ys) = bitsOf p2 c2" by (rule kvOf_Short_prefix)
  then have "take c2 (bitsOf p1 c1 @ b # ys) ! c1 = bitsOf p2 c2 ! c1" by simp
  then have "b = bitsOf p2 c2 ! c1" using lt by (simp add: nth_append)
  then show False by (simp add: b_def)
qed

theorem wfNode_unique:
  assumes "wfNode n t1" "wfNode n t2" "kvOf t1 = kvOf t2"
  shows "t1 = t2"
  using assms
proof (induction t1 arbitrary: n t2)
  case Nil
  then show ?case by simp
next
  case (Leaf v1)
  then have n0: "n = 0" by simp
  with Leaf.prems(2) obtain v2 where t2: "t2 = Leaf v2" by (cases t2) auto
  from Leaf.prems(3) have "kvOf (Leaf v1) [] = kvOf t2 []" by (rule fun_cong)
  with t2 show ?case by simp
next
  case (Full l1 r1)
  show ?case
  proof (cases t2)
    case Nil
    with Full.prems show ?thesis by simp
  next
    case (Leaf v2)
    with Full.prems show ?thesis by simp
  next
    case (Short c2 p2 ch2)
    with Full.prems short_full_differ [of n c2 p2 ch2 l1 r1] show ?thesis by simp
  next
    case (Full l2 r2)
    note t2 = this
    from Full.prems(3) have "fork (kvOf l1) (kvOf r1) = fork (kvOf l2) (kvOf r2)"
      unfolding t2 by simp
    then have "kvOf l1 = kvOf l2 \<and> kvOf r1 = kvOf r2" by (rule fork_eqD)
    then have kl: "kvOf l1 = kvOf l2" and kr: "kvOf r1 = kvOf r2" by simp_all
    from Full.prems(1) have w1: "wfNode (n - 1) l1" "wfNode (n - 1) r1" by simp_all
    from Full.prems(2) have w2: "wfNode (n - 1) l2" "wfNode (n - 1) r2" unfolding t2 by simp_all
    have "l1 = l2" using w1(1) w2(1) kl by (rule Full.IH(1))
    moreover have "r1 = r2" using w1(2) w2(2) kr by (rule Full.IH(2))
    ultimately show ?thesis unfolding t2 by simp
  qed
next
  case (Short c1 p1 ch1)
  show ?case
  proof (cases t2)
    case Nil
    with Short.prems show ?thesis by simp
  next
    case (Leaf v2)
    with Short.prems show ?thesis by simp
  next
    case (Full l2 r2)
    with Short.prems short_full_differ [of n c1 p1 ch1 l2 r2] show ?thesis by simp
  next
    case (Short c2 p2 ch2)
    note t2 = this
    have e: "kvOf (Short c1 p1 ch1) = kvOf (Short c2 p2 ch2)" using Short.prems t2 by simp
    have w2: "wfNode n (Short c2 p2 ch2)" using Short.prems t2 by simp
    have "\<not> c1 < c2" using short_count_less [OF Short.prems(1) w2 e] by blast
    moreover have "\<not> c2 < c1" using short_count_less [OF w2 Short.prems(1) e [symmetric]] by blast
    ultimately have ceq: "c1 = c2" by simp
    from wfNode_nonempty [OF Short.prems(1)] obtain xs where
      x: "kvOf (Short c1 p1 ch1) xs \<noteq> None" by blast
    then have "take c1 xs = bitsOf p1 c1" by (rule kvOf_Short_prefix)
    moreover from x e have "take c2 xs = bitsOf p2 c2" by (intro kvOf_Short_prefix) simp
    ultimately have beq: "bitsOf p1 c1 = bitsOf p2 c1" using ceq by simp
    have peq: "p1 = p2"
      using Short.prems(1) w2 ceq beq by (intro wfPath_eqI [of c1]) auto
    have "pre (bitsOf p1 c1) (kvOf ch1) = pre (bitsOf p1 c1) (kvOf ch2)"
      using e ceq peq by simp
    then have "kvOf ch1 = kvOf ch2" by (rule pre_eqD)
    have kc: "kvOf ch1 = kvOf ch2" by fact
    have wc1: "wfNode (n - c1) ch1" using Short.prems(1) by simp
    have wc2: "wfNode (n - c1) ch2" using w2 ceq by simp
    have "ch1 = ch2" using wc1 wc2 kc by (rule Short.IH)
    with ceq peq t2 show ?thesis by simp
  qed
qed

section \<open>Canonicality and round trip\<close>

lemma hashNode_wf: "wfNode n t \<Longrightarrow> \<exists>h. hashNode H t = Inr h"
proof (induction t arbitrary: n)
  case (Short c p ch)
  from Short.prems have "wfNode (n - c) ch" by simp
  from Short.IH [OF this] show ?case by auto
next
  case (Full l r)
  from Full.prems have "wfNode (n - 1) l" "wfNode (n - 1) r" by simp_all
  from Full.IH(1) [OF this(1)] Full.IH(2) [OF this(2)] show ?case by auto
qed auto

lemma Hash_wf: "wfTree t \<Longrightarrow> \<exists>h. Hash H t = Inr h"
  using hashNode_wf [of "nat (keyLength t) * 8" "root t" H]
  by (auto simp: Hash_def wfTree_def)

lemma map_of_keyBits:
  "map_of (map (\<lambda>(key, v). (keyBits key, v)) ps) (keyBits k) = map_of ps k"
  by (induction ps) (auto dest: keyBits_inj)

lemma map_of_keyBits_range:
  "map_of (map (\<lambda>(key, v). (keyBits key, v)) ps) xs = Some v \<Longrightarrow> \<exists>k. xs = keyBits k"
  by (induction ps) (auto split: if_splits)

lemma map_of_keyBits_cong:
  assumes "map_of ps1 = map_of ps2"
  shows "map_of (map (\<lambda>(key, v). (keyBits key, v)) ps1) = map_of (map (\<lambda>(key, v). (keyBits key, v)) ps2)"
proof (rule ext)
  fix xs
  let ?f = "\<lambda>ps. map_of (map (\<lambda>(key, v). (keyBits key, v)) ps)"
  show "?f ps1 xs = ?f ps2 xs"
  proof (cases "\<exists>k. xs = keyBits k")
    case True
    then obtain k where "xs = keyBits k" by blast
    then show ?thesis using assms by (simp add: map_of_keyBits)
  next
    case False
    then have "?f ps1 xs = None" "?f ps2 xs = None"
      using map_of_keyBits_range [of ps1 xs] map_of_keyBits_range [of ps2 xs]
      by (metis not_Some_eq)+
    then show ?thesis by simp
  qed
qed

lemma putAll_same_map:
  assumes t0: "NewTree kl = Inr t0"
    and l1: "\<forall>(key, v) \<in> set ps1. int (length key) = kl"
    and l2: "\<forall>(key, v) \<in> set ps2. int (length key) = kl"
    and m: "map_of (rev ps1) = map_of (rev ps2)"
  shows "\<exists>t. putAll t0 ps1 = Inr t \<and> putAll t0 ps2 = Inr t \<and> wfTree t"
proof -
  from NewTree_wf [OF t0] have w0: "wfTree t0" and k0: "keyLength t0 = kl" and r0: "root t0 = Nil"
    by simp_all
  let ?g = "\<lambda>ps. map_of (rev (map (\<lambda>(key, v). (keyBits key, v)) ps))"
  from putAll_correct [OF w0, of ps1] l1 k0 r0 obtain t1 where
    p1: "putAll t0 ps1 = Inr t1" and w1: "wfTree t1" and k1: "keyLength t1 = kl"
    and n1: "ps1 \<noteq> [] \<longrightarrow> root t1 \<noteq> Nil" and m1: "kvOf (root t1) = ?g ps1" by auto
  from putAll_correct [OF w0, of ps2] l2 k0 r0 obtain t2 where
    p2: "putAll t0 ps2 = Inr t2" and w2: "wfTree t2" and k2: "keyLength t2 = kl"
    and n2: "ps2 \<noteq> [] \<longrightarrow> root t2 \<noteq> Nil" and m2: "kvOf (root t2) = ?g ps2" by auto
  have "?g ps1 = ?g ps2"
    using map_of_keyBits_cong [OF m] by (simp add: rev_map)
  then have ke: "kvOf (root t1) = kvOf (root t2)" using m1 m2 by simp
  have re: "root t1 = root t2"
  proof (cases "root t1 = Nil")
    case True
    show ?thesis
    proof (rule ccontr)
      assume "root t1 \<noteq> root t2"
      with True w2 have "wfNode (nat (keyLength t2) * 8) (root t2)" by (auto simp: wfTree_def)
      from wfNode_nonempty [OF this] obtain xs where "kvOf (root t2) xs \<noteq> None" by blast
      moreover have "kvOf (root t2) xs = None" using ke True by (metis kvOf.simps(1))
      ultimately show False by simp
    qed
  next
    case False
    with w1 k1 have a: "wfNode (nat kl * 8) (root t1)" by (auto simp: wfTree_def)
    from wfNode_nonempty [OF a] obtain xs where "kvOf (root t1) xs \<noteq> None" by blast
    then have "kvOf (root t2) xs \<noteq> None" using ke by simp
    then have "root t2 \<noteq> Nil" by auto
    with w2 k2 have b: "wfNode (nat kl * 8) (root t2)" by (auto simp: wfTree_def)
    from wfNode_unique [OF a b ke] show ?thesis .
  qed
  have "t1 = t2" using re k1 k2 by simp
  with p1 p2 w1 show ?thesis by simp
qed

lemma map_of_functional:
  assumes f: "\<forall>(k, v) \<in> set ps. \<forall>(k', v') \<in> set ps. k = k' \<longrightarrow> v = v'"
    and s: "set ps = set qs"
  shows "map_of ps = map_of qs"
proof (rule ext)
  fix k
  show "map_of ps k = map_of qs k"
  proof (cases "map_of ps k")
    case None
    then have "k \<notin> fst ` set ps" by (simp add: map_of_eq_None_iff)
    then have "map_of qs k = None" using s by (simp add: map_of_eq_None_iff)
    with None show ?thesis by simp
  next
    case (Some v)
    then have in1: "(k, v) \<in> set ps" by (rule map_of_SomeD)
    then have "(k, v) \<in> set qs" using s by simp
    then obtain v' where q: "map_of qs k = Some v'" using weak_map_of_SomeI by fastforce
    then have "(k, v') \<in> set ps" using s map_of_SomeD by fastforce
    with in1 f have "v = v'" by fastforce
    with Some q show ?thesis by simp
  qed
qed

text \<open>
  Claim C1 (canonicality), as amended.  Two orders of the same multiset of pairs give
  the same trie when no key of the multiset comes with two different values: both runs
  of \<^verbatim>\<open>Put\<close> succeed, the roots are identical and \<^verbatim>\<open>Hash\<close> returns the same digest.
  (Where a key comes with two values the last write wins, and the order decides which
  one that is.)
\<close>

theorem C1_canonical_for_consistent_pairs:
  assumes "NewTree kl = Inr t0"
    and "\<forall>(key, v) \<in> set ps1. int (length key) = kl"
    and "mset ps1 = mset ps2"
    and "\<forall>(k, v) \<in> set ps1. \<forall>(k', v') \<in> set ps1. k = k' \<longrightarrow> v = v'"
  shows "\<exists>t1 t2 h. putAll t0 ps1 = Inr t1 \<and> putAll t0 ps2 = Inr t2 \<and> root t1 = root t2 \<and>
           Hash H t1 = Inr h \<and> Hash H t2 = Inr h"
proof -
  have s: "set ps1 = set ps2" using assms(3) by (rule mset_eq_setD)
  have f: "\<forall>(k, v) \<in> set (rev ps1). \<forall>(k', v') \<in> set (rev ps1). k = k' \<longrightarrow> v = v'"
    using assms(4) by simp
  have "map_of (rev ps1) = map_of (rev ps2)"
    using f by (rule map_of_functional) (simp add: s)
  moreover have "\<forall>(key, v) \<in> set ps2. int (length key) = kl" using assms(2) s by simp
  ultimately obtain t where "putAll t0 ps1 = Inr t" "putAll t0 ps2 = Inr t" "wfTree t"
    using putAll_same_map [OF assms(1,2)] by blast
  moreover from Hash_wf [OF this(3)] obtain h where "Hash H t = Inr h" by blast
  ultimately show ?thesis by blast
qed

text \<open>
  Claim C2 (round trip).  After any sequence of \<^verbatim>\<open>Put\<close> calls with keys of the
  configured length into a fresh trie, every call succeeds, and \<^verbatim>\<open>Get\<close> of any key
  returns the value of the latest \<^verbatim>\<open>Put\<close> for that key with found = true, or
  \<^verbatim>\<open>(nil, false)\<close> when the key was never put (\<open>map_of (rev ps)\<close> is the last pair of
  \<open>ps\<close> with the key).
\<close>

theorem C2_roundtrip:
  assumes "NewTree kl = Inr t0"
    and "\<forall>(key, v) \<in> set ps. int (length key) = kl"
  shows "\<exists>t. putAll t0 ps = Inr t \<and>
           (\<forall>key. Get t key = Inr (case map_of (rev ps) key of
                                      None \<Rightarrow> ([], False) | Some v \<Rightarrow> (v, True)))"
proof -
  from NewTree_wf [OF assms(1)] have w0: "wfTree t0" and k0: "keyLength t0 = kl" and r0: "root t0 = Nil"
    by simp_all
  from putAll_correct [OF w0, of ps] assms(2) k0 r0 obtain t where
    p: "putAll t0 ps = Inr t" and w: "wfTree t"
    and m: "kvOf (root t) = map_of (rev (map (\<lambda>(key, v). (keyBits key, v)) ps))" by auto
  have "treeMap t key = map_of (rev ps) key" for key
    unfolding treeMap_def m using map_of_keyBits [of "rev ps" key] by (simp add: rev_map)
  then show ?thesis using p Get_correct [OF w] by simp
qed

text \<open>
  Claim C1 as it is stated fails where a key occurs with two values: the two orders of
  the pairs \<open>(0xAA, 0x70)\<close> and \<open>(0xAA, 0x71)\<close> leave different leaves, and with a
  tag-prefixing hasher different root hashes.
\<close>

theorem C1_counterexample_duplicate_key:
  "mset [([0xAA], [0x70]), ([0xAA :: byte], [0x71 :: byte])] = mset [([0xAA], [0x71]), ([0xAA], [0x70])]
   \<and> bindE (NewTree 1) (\<lambda>t. putAll t [([0xAA], [0x70]), ([0xAA], [0x71])])
       = Inr \<lparr>keyLength = 1, root = Short 8 [0xAA] (Leaf [0x71])\<rparr>
   \<and> bindE (NewTree 1) (\<lambda>t. putAll t [([0xAA], [0x71]), ([0xAA], [0x70])])
       = Inr \<lparr>keyLength = 1, root = Short 8 [0xAA] (Leaf [0x70])\<rparr>
   \<and> Short 8 [0xAA] (Leaf [0x71]) \<noteq> Short 8 [0xAA] (Leaf [0x70])
   \<and> Hash prefixHasher \<lparr>keyLength = 1, root = Short 8 [0xAA] (Leaf [0x71])\<rparr>
       \<noteq> Hash prefixHasher \<lparr>keyLength = 1, root = Short 8 [0xAA] (Leaf [0x70])\<rparr>"
proof (intro conjI)
  show "mset [([0xAA], [0x70]), ([0xAA :: byte], [0x71 :: byte])] = mset [([0xAA], [0x71]), ([0xAA], [0x70])]"
    by (simp add: add_mset_commute)
  show "bindE (NewTree 1) (\<lambda>t. putAll t [([0xAA], [0x70]), ([0xAA], [0x71])])
       = Inr \<lparr>keyLength = 1, root = Short 8 [0xAA] (Leaf [0x71])\<rparr>"
    by code_simp
  show "bindE (NewTree 1) (\<lambda>t. putAll t [([0xAA], [0x71]), ([0xAA], [0x70])])
       = Inr \<lparr>keyLength = 1, root = Short 8 [0xAA] (Leaf [0x70])\<rparr>"
    by code_simp
  show "Short 8 [0xAA] (Leaf [0x71]) \<noteq> Short 8 [0xAA] (Leaf [0x70])"
    by simp
  show "Hash prefixHasher \<lparr>keyLength = 1, root = Short 8 [0xAA] (Leaf [0x71])\<rparr>
       \<noteq> Hash prefixHasher \<lparr>keyLength = 1, root = Short 8 [0xAA] (Leaf [0x70])\<rparr>"
    by (simp add: Hash_def prefixHasher_def)
qed

theorem C1_canonical_for_consistent_pairs_witness:
  "\<exists>t1 t2 h.
     putAll \<lparr>keyLength = 1, root = Nil\<rparr> [([0x00], [0x78]), ([0x80], [0x79])] = Inr t1 \<and>
     putAll \<lparr>keyLength = 1, root = Nil\<rparr> [([0x80], [0x79]), ([0x00], [0x78])] = Inr t2 \<and>
     root t1 = root t2 \<and> Hash prefixHasher t1 = Inr h \<and> Hash prefixHasher t2 = Inr h"
proof -
  have a: "NewTree 1 = Inr \<lparr>keyLength = 1, root = Nil\<rparr>"
    by (simp add: NewTree_def maxKeyLength_def)
  have b: "\<forall>(key, v) \<in> set [([0x00 :: byte], [0x78 :: byte]), ([0x80], [0x79])]. int (length key) = 1"
    by simp
  have c: "mset [([0x00 :: byte], [0x78 :: byte]), ([0x80], [0x79])] = mset [([0x80], [0x79]), ([0x00], [0x78])]"
    by (simp add: add_mset_commute)
  have d: "\<forall>(k, v) \<in> set [([0x00 :: byte], [0x78 :: byte]), ([0x80], [0x79])].
           \<forall>(k', v') \<in> set [([0x00 :: byte], [0x78 :: byte]), ([0x80], [0x79])]. k = k' \<longrightarrow> v = v'"
    by simp
  show ?thesis by (rule C1_canonical_for_consistent_pairs [OF a b c d])
qed

theorem C2_roundtrip_witness:
  "\<exists>t. putAll \<lparr>keyLength = 1, root = Nil\<rparr> [([0xAA], [0x70]), ([0x55], [0x72]), ([0xAA], [0x71])] = Inr t \<and>
       Get t [0xAA] = Inr ([0x71], True) \<and> Get t [0x55] = Inr ([0x72], True) \<and>
       Get t [0x00] = Inr ([], False) \<and> Get t [0xAA, 0x00] = Inr ([], False)"
proof -
  let ?ps = "[([0xAA :: byte], [0x70 :: byte]), ([0x55], [0x72]), ([0xAA], [0x71])]"
  have a: "NewTree 1 = Inr \<lparr>keyLength = 1, root = Nil\<rparr>"
    by (simp add: NewTree_def maxKeyLength_def)
  have b: "\<forall>(key, v) \<in> set ?ps. int (length key) = 1"
    by simp
  from C2_roundtrip [OF a b] obtain t where
    p: "putAll \<lparr>keyLength = 1, root = Nil\<rparr> ?ps = Inr t"
    and g: "\<And>key. Get t key = Inr (case map_of (rev ?ps) key of
                                      None \<Rightarrow> ([], False) | Some v \<Rightarrow> (v, True))" by blast
  show ?thesis
    using p g [of "[0xAA]"] g [of "[0x55]"] g [of "[0x00]"] g [of "[0xAA, 0x00]"]
    by (intro exI [of _ t]) simp
qed

section \<open>The trail of Del\<close>

lemma plug_append: "plug (tr @ trail) x = plug trail (plug tr x)"
  by (induction tr arbitrary: x) simp_all

lemma holeBits_append: "holeBits (tr @ trail) = holeBits trail @ holeBits tr"
  by (induction tr) simp_all

lemma kvOf_plug1: "kvOf (plug1 f x) = frameMap f (kvOf x)"
  by (cases f) simp_all

lemma kvOf_plug: "kvOf (plug trail x) = ctxMap trail (kvOf x)"
  by (induction trail arbitrary: x) (simp_all add: kvOf_plug1)

lemma frameMap_del: "frameMap f (m(ys := None)) = (frameMap f m)(frameBits f @ ys := None)"
  by (cases f) (simp_all add: fork_del pre_del)

lemma ctxMap_del: "ctxMap trail (m(ys := None)) = (ctxMap trail m)(holeBits trail @ ys := None)"
  by (induction trail arbitrary: m ys) (simp_all add: frameMap_del)

lemma wfNode_plug1:
  assumes "wfNode n' (plug1 f x)"
  shows "\<exists>n. wfNode n x \<and>
           (\<forall>y. wfNode n y \<and> (isShort y \<longrightarrow> isShort x \<or> \<not> startsShort [f]) \<longrightarrow>
                wfNode n' (plug1 f y) \<and> (isShort (plug1 f y) \<longrightarrow> isShort (plug1 f x)))"
proof (cases f)
  case (FullLeft r)
  with assms show ?thesis by (intro exI [of _ "n' - 1"]) simp
next
  case (FullRight l)
  with assms show ?thesis by (intro exI [of _ "n' - 1"]) simp
next
  case (ShortChild c p)
  with assms show ?thesis by (intro exI [of _ "n' - c"]) auto
qed

lemma wfNode_plug_basic:
  assumes "wfNode N (plug trail x)"
  shows "\<exists>n. wfNode n x \<and>
           (\<forall>y. wfNode n y \<and> (isShort y \<longrightarrow> isShort x) \<longrightarrow> wfNode N (plug trail y))"
  using assms
proof (induction trail arbitrary: x)
  case Nil
  then show ?case by auto
next
  case (Cons f fs)
  from Cons.prems have "wfNode N (plug fs (plug1 f x))" by simp
  from Cons.IH [OF this] obtain n' where
    a: "wfNode n' (plug1 f x)"
    and b: "\<And>y'. wfNode n' y' \<Longrightarrow> (isShort y' \<longrightarrow> isShort (plug1 f x)) \<Longrightarrow> wfNode N (plug fs y')"
    by blast
  from wfNode_plug1 [OF a] obtain n where
    c: "wfNode n x"
    and d: "\<And>y. wfNode n y \<Longrightarrow> (isShort y \<longrightarrow> isShort x \<or> \<not> startsShort [f]) \<Longrightarrow>
                wfNode n' (plug1 f y) \<and> (isShort (plug1 f y) \<longrightarrow> isShort (plug1 f x))"
    by blast
  have "wfNode N (plug (f # fs) y)" if "wfNode n y" "isShort y \<longrightarrow> isShort x" for y
    using d [of y] that b [of "plug1 f y"] by simp
  with c show ?case by blast
qed

lemma wfNode_plug:
  assumes "wfNode N (plug trail x)"
  shows "\<exists>n. wfNode n x \<and>
           (\<forall>y. wfNode n y \<and> (isShort y \<longrightarrow> isShort x \<or> \<not> startsShort trail) \<longrightarrow>
                wfNode N (plug trail y))"
proof (cases trail)
  case Nil
  with assms show ?thesis by auto
next
  case (Cons f fs)
  with assms have "wfNode N (plug fs (plug1 f x))" by simp
  from wfNode_plug_basic [OF this] obtain n' where
    a: "wfNode n' (plug1 f x)"
    and b: "\<And>y'. wfNode n' y' \<Longrightarrow> (isShort y' \<longrightarrow> isShort (plug1 f x)) \<Longrightarrow> wfNode N (plug fs y')"
    by blast
  from wfNode_plug1 [OF a] obtain n where
    c: "wfNode n x"
    and d: "\<And>y. wfNode n y \<Longrightarrow> (isShort y \<longrightarrow> isShort x \<or> \<not> startsShort [f]) \<Longrightarrow>
                wfNode n' (plug1 f y) \<and> (isShort (plug1 f y) \<longrightarrow> isShort (plug1 f x))"
    by blast
  have s: "startsShort trail = startsShort [f]" using Cons by (cases f) simp_all
  have "wfNode N (plug trail y)" if "wfNode n y" "isShort y \<longrightarrow> isShort x \<or> \<not> startsShort trail" for y
    using d [of y] that b [of "plug1 f y"] s Cons by simp
  with c show ?thesis by blast
qed

lemma delLoop_correct:
  assumes "wfNode n t" "index + n = length key * 8"
  shows "case kvOf t (drop index (keyBits key)) of
           None \<Rightarrow> delLoop key index t trail = Inr None
         | Some v \<Rightarrow> \<exists>tr. delLoop key index t trail = Inr (Some (tr @ trail)) \<and>
                        plug tr (Leaf v) = t \<and> holeBits tr = drop index (keyBits key)"
  using assms
proof (induction t arbitrary: n index trail)
  case Nil
  then show ?case by simp
next
  case (Leaf v)
  then have "drop index (keyBits key) = []" by simp
  then show ?case by simp
next
  case (Full l r)
  from Full.prems have n1: "1 \<le> n" and wl: "wfNode (n - 1) l" and wr: "wfNode (n - 1) r" by auto
  from Full.prems n1 have lt: "index < length key * 8" and ix: "index + 1 + (n - 1) = length key * 8"
    by auto
  have rd: "ReadBit key index = Inr (bitAt key index)"
    using lt by (intro ReadBit_in) simp
  have ks: "drop index (keyBits key) = bitAt key index # drop (index + 1) (keyBits key)"
    using lt by (rule drop_keyBits_Cons)
  show ?case
  proof (cases "bitAt key index")
    case False
    show ?thesis
    proof (cases "kvOf l (drop (index + 1) (keyBits key))")
      case None
      with Full.IH(1) [OF wl ix, of "FullLeft r # trail"] rd False show ?thesis by (simp add: ks)
    next
      case (Some v)
      with Full.IH(1) [OF wl ix, of "FullLeft r # trail"] obtain tr where
        "delLoop key (index + 1) l (FullLeft r # trail) = Inr (Some (tr @ FullLeft r # trail))"
        "plug tr (Leaf v) = l" "holeBits tr = drop (index + 1) (keyBits key)" by auto
      then have "delLoop key index (Full l r) trail = Inr (Some ((tr @ [FullLeft r]) @ trail))"
        "plug (tr @ [FullLeft r]) (Leaf v) = Full l r"
        "holeBits (tr @ [FullLeft r]) = drop index (keyBits key)"
        using rd False by (simp_all add: plug_append holeBits_append ks)
      then show ?thesis using Some False unfolding ks by (simp only: fork_Cons kvOf.simps if_False option.case) blast
    qed
  next
    case True
    show ?thesis
    proof (cases "kvOf r (drop (index + 1) (keyBits key))")
      case None
      with Full.IH(2) [OF wr ix, of "FullRight l # trail"] rd True show ?thesis by (simp add: ks)
    next
      case (Some v)
      with Full.IH(2) [OF wr ix, of "FullRight l # trail"] obtain tr where
        "delLoop key (index + 1) r (FullRight l # trail) = Inr (Some (tr @ FullRight l # trail))"
        "plug tr (Leaf v) = r" "holeBits tr = drop (index + 1) (keyBits key)" by auto
      then have "delLoop key index (Full l r) trail = Inr (Some ((tr @ [FullRight l]) @ trail))"
        "plug (tr @ [FullRight l]) (Leaf v) = Full l r"
        "holeBits (tr @ [FullRight l]) = drop index (keyBits key)"
        using rd True by (simp_all add: plug_append holeBits_append ks)
      then show ?thesis using Some True unfolding ks by (simp only: fork_Cons kvOf.simps if_True option.case) blast
    qed
  qed
next
  case (Short c p ch)
  let ?ks = "drop index (keyBits key)"
  let ?ks' = "drop (index + c) (keyBits key)"
  from Short.prems have c1: "1 \<le> c" and cn: "c \<le> n" and wp: "wfPath c p"
    and wch: "wfNode (n - c) ch" by auto
  have cp: "c \<le> 8 * length p" using wp by (rule wfPath_bound)
  have ik: "index + c \<le> 8 * length key" using Short.prems cn by simp
  have ix: "index + c + (n - c) = length key * 8" using Short.prems cn by simp
  have ml: "matchLoop key index p c 0 = Inr (\<forall>m. m < c \<longrightarrow> bitAt key (m + index) = bitAt p m)"
    using matchLoop_in [OF _ ik cp, of 0] by simp
  have tk: "take c ?ks = map (\<lambda>j. bitAt key (j + index)) [0..<c]"
    using ik by (intro take_drop_keyBits) simp
  have iff: "(\<forall>m. m < c \<longrightarrow> bitAt key (m + index) = bitAt p m) \<longleftrightarrow> take c ?ks = bitsOf p c"
    unfolding tk bitsOf_def by (auto simp: list_eq_iff_nth_eq)
  show ?case
  proof (cases "take c ?ks = bitsOf p c")
    case False
    then have "kvOf (Short c p ch) ?ks = None" by simp
    then show ?thesis using ml iff False by simp
  next
    case True
    then have ks: "?ks = bitsOf p c @ ?ks'"
      by (metis append_take_drop_id drop_drop add.commute)
    then have kv: "kvOf (Short c p ch) ?ks = kvOf ch ?ks'" by simp
    have step: "delLoop key index (Short c p ch) trail = delLoop key (index + c) ch (ShortChild c p # trail)"
      using ml iff True by simp
    show ?thesis
    proof (cases "kvOf ch ?ks'")
      case None
      with Short.IH [OF wch ix, of "ShortChild c p # trail"] step kv show ?thesis by simp
    next
      case (Some v)
      with Short.IH [OF wch ix, of "ShortChild c p # trail"] obtain tr where
        "delLoop key (index + c) ch (ShortChild c p # trail) = Inr (Some (tr @ ShortChild c p # trail))"
        "plug tr (Leaf v) = ch" "holeBits tr = ?ks'" by auto
      then have "delLoop key index (Short c p ch) trail = Inr (Some ((tr @ [ShortChild c p]) @ trail))"
        "plug (tr @ [ShortChild c p]) (Leaf v) = Short c p ch"
        "holeBits (tr @ [ShortChild c p]) = ?ks"
        using step ks by (simp_all add: plug_append holeBits_append)
      then show ?thesis using Some kv by (simp only: option.case) blast
    qed
  qed
qed

section \<open>Merging short nodes\<close>

lemma merge_correct:
  assumes "wfPath pc pp" "wfPath cc cp"
  shows "\<exists>q. merge pc pp cc cp ch = Inr (Short (pc + cc) q ch) \<and> wfPath (pc + cc) q \<and>
           bitsOf q (pc + cc) = bitsOf pp pc @ bitsOf cp cc"
proof -
  let ?z = "MakeBitVector (pc + cc)"
  have bp: "pc \<le> 8 * length pp" and bc: "cc \<le> 8 * length cp"
    using assms by (simp_all add: wfPath_bound)
  have lz: "pc + cc \<le> 8 * length ?z" by simp
  have "pc + 0 \<le> 8 * length ?z" "pc + 0 \<le> 8 * length pp" using lz bp by simp_all
  from copyBits_in [OF _ this, of 0] obtain d1 where
    c1: "copyBits pp 0 ?z 0 pc 0 = Inr d1" and l1: "length d1 = length ?z"
    and b1: "\<And>j. bitAt d1 j = (if j < pc then bitAt pp j else bitAt ?z j)" by auto
  have "cc + pc \<le> 8 * length d1" "cc + 0 \<le> 8 * length cp" using lz l1 bc by simp_all
  from copyBits_in [OF _ this, of 0] obtain d2 where
    c2: "copyBits cp 0 d1 pc cc 0 = Inr d2" and l2: "length d2 = length d1"
    and b2: "\<And>j. bitAt d2 j = (if pc \<le> j \<and> j < cc + pc then bitAt cp (j - pc) else bitAt d1 j)"
    by auto
  have m: "merge pc pp cc cp ch = Inr (Short (pc + cc) d2 ch)"
    using c1 c2 by (simp add: merge_def)
  have w: "wfPath (pc + cc) d2"
    unfolding wfPath_def
  proof (intro conjI ballI)
    show "length d2 = (pc + cc + 7) div 8" using l1 l2 by simp
    fix j assume "j \<in> {pc + cc..<8 * length d2}"
    then have "pc + cc \<le> j" "j < 8 * length ?z" using l1 l2 by simp_all
    then show "\<not> bitAt d2 j" using bitAt_MakeBitVector [of j "pc + cc"] by (simp add: b2 b1)
  qed
  have b: "bitsOf d2 (pc + cc) = bitsOf pp pc @ bitsOf cp cc"
  proof (rule nth_equalityI)
    show "length (bitsOf d2 (pc + cc)) = length (bitsOf pp pc @ bitsOf cp cc)" by simp
    fix j assume "j < length (bitsOf d2 (pc + cc))"
    then have j: "j < pc + cc" by simp
    show "bitsOf d2 (pc + cc) ! j = (bitsOf pp pc @ bitsOf cp cc) ! j"
      using j by (auto simp: nth_append b2 b1)
  qed
  from m w b show ?thesis by blast
qed

lemma oneBit_path:
  "\<exists>q. WriteBit (MakeBitVector 1) 0 b = Inr q \<and> wfPath 1 q \<and> bitsOf q 1 = [b]"
proof -
  have "0 < 8 * length (MakeBitVector 1)" by simp
  from WriteBit_in [OF this, of b] obtain q where
    w: "WriteBit (MakeBitVector 1) 0 b = Inr q" and l: "length q = length (MakeBitVector 1)"
    and bq: "\<And>j. bitAt q j = (if j = 0 then b else bitAt (MakeBitVector 1) j)" by blast
  have "wfPath 1 q"
    using l bq bitAt_MakeBitVector [of _ 1] by (auto simp: wfPath_def)
  moreover have "bitsOf q 1 = [b]" by (simp add: bitsOf_def bq)
  ultimately show ?thesis using w by blast
qed

text \<open>One bit in front of a well-formed subtree: what \<open>singleBit\<close> builds.\<close>

lemma singleBit_build:
  assumes q: "wfPath 1 q" "bitsOf q 1 = [b]" and w: "wfNode (m - 1) c" and m: "1 \<le> m"
  shows "\<exists>s. (case c of Short cCount cPath cChild \<Rightarrow> merge 1 q cCount cPath cChild
                        | _ \<Rightarrow> Inr (Short 1 q c)) = Inr s \<and>
             isShort s \<and> wfNode m s \<and> kvOf s = pre [b] (kvOf c)"
proof (cases "isShort c")
  case False
  then have "(case c of Short cCount cPath cChild \<Rightarrow> merge 1 q cCount cPath cChild
                        | _ \<Rightarrow> Inr (Short 1 q c)) = Inr (Short 1 q c)"
    by (cases c) simp_all
  moreover have "wfNode m (Short 1 q c)" using q w m False by simp
  moreover have "kvOf (Short 1 q c) = pre [b] (kvOf c)" using q by simp
  ultimately show ?thesis by simp
next
  case True
  then obtain cc cp ch where c: "c = Short cc cp ch" by (cases c) simp_all
  with w have wc: "1 \<le> cc" "cc \<le> m - 1" "wfPath cc cp" "\<not> isShort ch" "wfNode (m - 1 - cc) ch"
    by simp_all
  from merge_correct [OF q(1) wc(3), of ch] obtain r where
    mr: "merge 1 q cc cp ch = Inr (Short (1 + cc) r ch)" and wr: "wfPath (1 + cc) r"
    and br: "bitsOf r (1 + cc) = bitsOf q 1 @ bitsOf cp cc" by blast
  have "wfNode m (Short (1 + cc) r ch)" using wc wr m by simp
  moreover have "kvOf (Short (1 + cc) r ch) = pre [b] (kvOf c)"
    using br q c pre_append [of "[b]" "bitsOf cp cc" "kvOf ch"] by simp
  ultimately show ?thesis using mr c by simp
qed

lemma singleBit_left_gone:
  assumes "wfNode (m - 1) r" "1 \<le> m"
  shows "\<exists>s. singleBit Nil r = Inr s \<and> isShort s \<and> wfNode m s \<and> kvOf s = pre [True] (kvOf r)"
proof -
  from oneBit_path [of True] obtain q where
    "SetBit (MakeBitVector 1) 0 = Inr q" and q: "wfPath 1 q" "bitsOf q 1 = [True]"
    by (auto simp: WriteBit_def)
  then have "singleBit Nil r = (case r of Short cCount cPath cChild \<Rightarrow> merge 1 q cCount cPath cChild
                        | _ \<Rightarrow> Inr (Short 1 q r))"
    by (simp add: singleBit_def)
  with singleBit_build [OF q assms] show ?thesis by simp
qed

lemma singleBit_right_gone:
  assumes "wfNode (m - 1) l" "1 \<le> m"
  shows "\<exists>s. singleBit l Nil = Inr s \<and> isShort s \<and> wfNode m s \<and> kvOf s = pre [False] (kvOf l)"
proof -
  from assms have nn: "l \<noteq> Nil" by auto
  from oneBit_path [of False] obtain q where
    "ClearBit (MakeBitVector 1) 0 = Inr q" and q: "wfPath 1 q" "bitsOf q 1 = [False]"
    by (auto simp: WriteBit_def)
  then have "singleBit l Nil = (case l of Short cCount cPath cChild \<Rightarrow> merge 1 q cCount cPath cChild
                        | _ \<Rightarrow> Inr (Short 1 q l))"
    using nn by (simp add: singleBit_def)
  with singleBit_build [OF q assms] show ?thesis by simp
qed

lemma mergeParent_correct:
  assumes root: "wfNode N (plug outer x0)" and full: "\<not> isShort x0"
    and repl: "\<And>n. wfNode n x0 \<Longrightarrow> wfNode n s" and short: "isShort s"
  shows "\<exists>r'. mergeParent outer s = Inr r' \<and> wfNode N r' \<and> kvOf r' = ctxMap outer (kvOf s)"
proof (cases "startsShort outer")
  case False
  then have mp: "mergeParent outer s = Inr (plug outer s)"
    by (cases outer rule: startsShort.cases) (simp_all add: mergeParent_def)
  from wfNode_plug [OF root] obtain n where
    "wfNode n x0" and r: "\<And>y. wfNode n y \<Longrightarrow> (isShort y \<longrightarrow> isShort x0 \<or> \<not> startsShort outer) \<Longrightarrow>
       wfNode N (plug outer y)" by blast
  then have "wfNode N (plug outer s)" using repl False by blast
  then show ?thesis using mp by (simp add: kvOf_plug)
next
  case True
  then obtain pc pp rest where outer: "outer = ShortChild pc pp # rest"
    by (cases outer rule: startsShort.cases) simp_all
  from short obtain c1 p1 ch1 where s: "s = Short c1 p1 ch1" by (cases s) simp_all
  from root outer have "wfNode N (plug rest (Short pc pp x0))" by simp
  from wfNode_plug_basic [OF this] obtain n where
    wp: "wfNode n (Short pc pp x0)"
    and r: "\<And>y. wfNode n y \<Longrightarrow> (isShort y \<longrightarrow> isShort (Short pc pp x0)) \<Longrightarrow> wfNode N (plug rest y)"
    by blast
  from wp have p: "1 \<le> pc" "pc \<le> n" "wfPath pc pp" "wfNode (n - pc) x0" by simp_all
  from repl [OF p(4)] s have ws: "1 \<le> c1" "c1 \<le> n - pc" "wfPath c1 p1" "\<not> isShort ch1"
    "wfNode (n - pc - c1) ch1" by simp_all
  from merge_correct [OF p(3) ws(3), of ch1] obtain q where
    mq: "merge pc pp c1 p1 ch1 = Inr (Short (pc + c1) q ch1)" and wq: "wfPath (pc + c1) q"
    and bq: "bitsOf q (pc + c1) = bitsOf pp pc @ bitsOf p1 c1" by blast
  have "n - (pc + c1) = n - pc - c1" by simp
  then have "wfNode n (Short (pc + c1) q ch1)" using p ws wq by simp
  then have "wfNode N (plug rest (Short (pc + c1) q ch1))" using r by simp
  moreover have "mergeParent outer s = Inr (plug rest (Short (pc + c1) q ch1))"
    using outer s mq by (simp add: mergeParent_def)
  moreover have "kvOf (plug rest (Short (pc + c1) q ch1)) = ctxMap outer (kvOf s)"
    using outer s bq by (simp add: kvOf_plug pre_append)
  ultimately show ?thesis by simp
qed

section \<open>Del is correct\<close>

text \<open>
  On a well-formed tree \<^verbatim>\<open>Del\<close> does not panic, removes the key from the map and
  nothing else, and leaves a well-formed tree or the empty one.
\<close>

lemma fork_single_left: "(fork [d \<mapsto> v] m)(False # d := None) = pre [True] m"
  by (simp add: fork_del pre_Cons)

lemma fork_single_right: "(fork m [d \<mapsto> v])(True # d := None) = pre [False] m"
  by (simp add: fork_del pre_Cons)

lemma delCleanup_full:
  assumes root: "wfNode N (plug (f # outer) dn)" and f: "\<not> startsShort [f]"
    and dn: "kvOf dn = [d \<mapsto> v]"
  shows "\<exists>r'. bindE (case f of FullLeft r \<Rightarrow> singleBit Nil r | FullRight l \<Rightarrow> singleBit l Nil
                         | ShortChild c p \<Rightarrow> Inl NilDereference) (mergeParent outer) = Inr r' \<and>
              wfNode N r' \<and>
              kvOf r' = (kvOf (plug (f # outer) dn))(holeBits (f # outer) @ d := None)"
proof -
  let ?x0 = "plug1 f dn"
  have root': "wfNode N (plug outer ?x0)" using root by simp
  have full: "\<not> isShort ?x0" using f by (cases f) simp_all
  from wfNode_plug_basic [OF root'] obtain n0 where w0: "wfNode n0 ?x0" by blast
  have "\<exists>s. (case f of FullLeft r \<Rightarrow> singleBit Nil r | FullRight l \<Rightarrow> singleBit l Nil
                  | ShortChild c p \<Rightarrow> Inl NilDereference) = Inr s \<and> isShort s \<and>
             (\<forall>n. wfNode n ?x0 \<longrightarrow> wfNode n s) \<and>
             kvOf s = (kvOf ?x0)(frameBits f @ d := None)"
  proof (cases f)
    case (FullLeft r)
    from w0 FullLeft have "wfNode (n0 - 1) r" "1 \<le> n0" by simp_all
    from singleBit_left_gone [OF this] obtain s where
      s: "singleBit Nil r = Inr s" "isShort s" "kvOf s = pre [True] (kvOf r)" by blast
    have "wfNode n s" if "wfNode n ?x0" for n
    proof -
      from that FullLeft have "wfNode (n - 1) r" "1 \<le> n" by simp_all
      from singleBit_left_gone [OF this] s(1) show ?thesis by auto
    qed
    moreover have "kvOf s = (kvOf ?x0)(frameBits f @ d := None)"
      using FullLeft s(3) dn by (simp add: fork_single_left)
    ultimately show ?thesis using s FullLeft by simp
  next
    case (FullRight l)
    from w0 FullRight have "wfNode (n0 - 1) l" "1 \<le> n0" by simp_all
    from singleBit_right_gone [OF this] obtain s where
      s: "singleBit l Nil = Inr s" "isShort s" "kvOf s = pre [False] (kvOf l)" by blast
    have "wfNode n s" if "wfNode n ?x0" for n
    proof -
      from that FullRight have "wfNode (n - 1) l" "1 \<le> n" by simp_all
      from singleBit_right_gone [OF this] s(1) show ?thesis by auto
    qed
    moreover have "kvOf s = (kvOf ?x0)(frameBits f @ d := None)"
      using FullRight s(3) dn by (simp add: fork_single_right)
    ultimately show ?thesis using s FullRight by simp
  next
    case (ShortChild c p)
    with f show ?thesis by simp
  qed
  then obtain s where
    sb: "(case f of FullLeft r \<Rightarrow> singleBit Nil r | FullRight l \<Rightarrow> singleBit l Nil
                  | ShortChild c p \<Rightarrow> Inl NilDereference) = Inr s"
    and ss: "isShort s" and rs: "\<And>n. wfNode n ?x0 \<Longrightarrow> wfNode n s"
    and ks: "kvOf s = (kvOf ?x0)(frameBits f @ d := None)" by blast
  from mergeParent_correct [OF root' full rs ss] obtain r' where
    mp: "mergeParent outer s = Inr r'" and wr: "wfNode N r'"
    and kr: "kvOf r' = ctxMap outer (kvOf s)" by blast
  have "kvOf r' = (kvOf (plug (f # outer) dn))(holeBits (f # outer) @ d := None)"
    unfolding kr ks by (simp add: ctxMap_del kvOf_plug kvOf_plug1)
  then show ?thesis using sb mp wr by simp
qed

lemma delCleanup_after_drop:
  assumes root: "wfNode N (plug tr2 dn)" and ns: "\<not> startsShort tr2" and dn: "kvOf dn = [d \<mapsto> v]"
  shows "\<exists>r'. (case tr2 of
                  FullLeft r # outer \<Rightarrow> bindE (singleBit Nil r) (mergeParent outer)
                | FullRight l # outer \<Rightarrow> bindE (singleBit l Nil) (mergeParent outer)
                | rest \<Rightarrow> Inr (plug rest Nil)) = Inr r' \<and>
              (r' = Nil \<or> wfNode N r') \<and>
              kvOf r' = (kvOf (plug tr2 dn))(holeBits tr2 @ d := None)"
proof (cases tr2)
  case Nil
  then show ?thesis using dn by simp
next
  case (Cons f outer)
  with ns have f: "\<not> startsShort [f]" by (cases f) simp_all
  from delCleanup_full [OF root [unfolded Cons] f dn] obtain r' where
    "bindE (case f of FullLeft r \<Rightarrow> singleBit Nil r | FullRight l \<Rightarrow> singleBit l Nil
                         | ShortChild c p \<Rightarrow> Inl NilDereference) (mergeParent outer) = Inr r'"
    "wfNode N r'" "kvOf r' = (kvOf (plug (f # outer) dn))(holeBits (f # outer) @ d := None)"
    by blast
  then show ?thesis using Cons f by (cases f) simp_all
qed

lemma delCleanup_correct:
  assumes root: "wfNode N (plug tr (Leaf v))"
  shows "\<exists>r'. delCleanup tr = Inr r' \<and> (r' = Nil \<or> wfNode N r') \<and>
              kvOf r' = (kvOf (plug tr (Leaf v)))(holeBits tr := None)"
proof (cases "startsShort tr")
  case False
  then have ds: "dropShort tr = tr"
    by (cases tr rule: startsShort.cases) (simp_all add: dropShort_def)
  from delCleanup_after_drop [OF root False, of "[]" v]
  show ?thesis unfolding delCleanup_def ds by simp
next
  case True
  then obtain c p rest where tr: "tr = ShortChild c p # rest"
    by (cases tr rule: startsShort.cases) simp_all
  have ds: "dropShort (ShortChild c p # rest) = rest" by (simp add: dropShort_def)
  let ?dn = "Short c p (Leaf v)"
  have root': "wfNode N (plug rest ?dn)" using root tr by simp
  have ns: "\<not> startsShort rest"
  proof
    assume "startsShort rest"
    then obtain c' p' rest' where "rest = ShortChild c' p' # rest'"
      by (cases rest rule: startsShort.cases) simp_all
    with root' have "wfNode N (plug rest' (Short c' p' ?dn))" by simp
    from wfNode_plug_basic [OF this] show False by auto
  qed
  have dn: "kvOf ?dn = [bitsOf p c \<mapsto> v]" by (simp add: single_pre [symmetric])
  from delCleanup_after_drop [OF root' ns dn]
  show ?thesis unfolding tr delCleanup_def ds by simp
qed

lemma Del_correct:
  assumes "wfTree t"
  shows "\<exists>t'. Del t key = Inr (t', treeMap t key \<noteq> None) \<and> wfTree t' \<and>
           keyLength t' = keyLength t \<and>
           kvOf (root t') = (kvOf (root t))(keyBits key := None) \<and>
           (treeMap t key = None \<longrightarrow> t' = t)"
proof (cases "root t = Nil \<or> keyLength t \<noteq> int (length key)")
  case True
  then have "treeMap t key = None"
    using kvOf_wrong_length [OF assms, of key] by (auto simp: treeMap_def)
  moreover from this have "(kvOf (root t))(keyBits key := None) = kvOf (root t)"
    by (auto simp: treeMap_def)
  ultimately show ?thesis using True assms by (auto simp: Del_def)
next
  case False
  then have w: "wfNode (length key * 8) (root t)" and n: "nat (keyLength t) * 8 = length key * 8"
    using assms by (auto simp: wfTree_def)
  have d: "Del t key = unsafeDel t key" using False by (simp add: Del_def)
  show ?thesis
  proof (cases "kvOf (root t) (keyBits key)")
    case None
    with delLoop_correct [OF w, of 0 key "[]"] have "delLoop key 0 (root t) [] = Inr None" by simp
    then have "Del t key = Inr (t, False)" using d by (simp add: unsafeDel_def)
    moreover have "(kvOf (root t))(keyBits key := None) = kvOf (root t)" using None by auto
    ultimately show ?thesis using None assms by (simp add: treeMap_def)
  next
    case (Some v)
    with delLoop_correct [OF w, of 0 key "[]"] obtain tr where
      dl: "delLoop key 0 (root t) [] = Inr (Some tr)" and pl: "plug tr (Leaf v) = root t"
      and hb: "holeBits tr = keyBits key" by auto
    from w pl have "wfNode (length key * 8) (plug tr (Leaf v))" by simp
    from delCleanup_correct [OF this] obtain r' where
      dc: "delCleanup tr = Inr r'" and wr: "r' = Nil \<or> wfNode (length key * 8) r'"
      and kr: "kvOf r' = (kvOf (root t))(keyBits key := None)" using pl hb by auto
    have "Del t key = Inr (t\<lparr>root := r'\<rparr>, True)" using d dl dc by (simp add: unsafeDel_def)
    moreover have "wfTree (t\<lparr>root := r'\<rparr>)" using wr assms n by (auto simp: wfTree_def)
    ultimately show ?thesis using Some kr by (simp add: treeMap_def)
  qed
qed

section \<open>Deleting every key\<close>

lemma delAll_correct:
  assumes "wfTree t"
  shows "\<exists>t'. delAll t ds = Inr t' \<and> wfTree t' \<and> keyLength t' = keyLength t \<and>
           kvOf (root t') = (\<lambda>xs. if xs \<in> keyBits ` set ds then None else kvOf (root t) xs)"
  using assms
proof (induction ds arbitrary: t)
  case Nil
  then show ?case by simp
next
  case (Cons key ds)
  from Del_correct [OF Cons.prems, of key] obtain t1 where
    d: "Del t key = Inr (t1, treeMap t key \<noteq> None)" and w: "wfTree t1"
    and kl: "keyLength t1 = keyLength t"
    and k: "kvOf (root t1) = (kvOf (root t))(keyBits key := None)" by blast
  from Cons.IH [OF w] obtain t' where
    da: "delAll t1 ds = Inr t'" and w': "wfTree t'" and kl': "keyLength t' = keyLength t1"
    and k': "kvOf (root t') = (\<lambda>xs. if xs \<in> keyBits ` set ds then None else kvOf (root t1) xs)"
    by blast
  have "delAll t (key # ds) = Inr t'" using d da by simp
  moreover have "kvOf (root t') = (\<lambda>xs. if xs \<in> keyBits ` set (key # ds) then None else kvOf (root t) xs)"
    unfolding k' k by (rule ext) auto
  ultimately show ?case using w' kl' kl by auto
qed

lemma wfTree_empty_map: "wfTree t \<Longrightarrow> kvOf (root t) = Map.empty \<Longrightarrow> root t = Nil"
proof (rule ccontr)
  assume w: "wfTree t" and e: "kvOf (root t) = Map.empty" and n: "root t \<noteq> Nil"
  then have "wfNode (nat (keyLength t) * 8) (root t)" by (simp add: wfTree_def)
  from wfNode_nonempty [OF this] e show False by simp
qed

lemma map_of_dom_keyBits:
  "map_of (map (\<lambda>(key, v). (keyBits key, v)) ps) xs \<noteq> None \<Longrightarrow> xs \<in> keyBits ` fst ` set ps"
  by (induction ps) (auto split: if_splits)

text \<open>
  Claim C8 (Del inverse and empty hash).  A trie is built from a fresh one by any
  sequence of puts with keys of the configured length; then \<^verbatim>\<open>Del\<close> is called for the
  keys of a list that contains every inserted key, in whatever order (keys may repeat
  and other keys may occur).  Every call succeeds, the root is \<^verbatim>\<open>nil\<close> at the end, and
  \<^verbatim>\<open>Hash\<close> of that trie and of the fresh trie is the empty byte string.
\<close>

theorem C8_del_all_gives_empty:
  assumes "NewTree kl = Inr t0"
    and "\<forall>(key, v) \<in> set ps. int (length key) = kl"
    and "fst ` set ps \<subseteq> set ds"
  shows "\<exists>t t'. putAll t0 ps = Inr t \<and> delAll t ds = Inr t' \<and> root t' = Nil \<and>
           Hash H t' = Inr [] \<and> Hash H t0 = Inr []"
proof -
  from NewTree_wf [OF assms(1)] have w0: "wfTree t0" and k0: "keyLength t0 = kl" and r0: "root t0 = Nil"
    by simp_all
  from putAll_correct [OF w0, of ps] assms(2) k0 r0 obtain t where
    p: "putAll t0 ps = Inr t" and w: "wfTree t"
    and m: "kvOf (root t) = map_of (rev (map (\<lambda>(key, v). (keyBits key, v)) ps))" by auto
  from delAll_correct [OF w, of ds] obtain t' where
    d: "delAll t ds = Inr t'" and w': "wfTree t'"
    and m': "kvOf (root t') = (\<lambda>xs. if xs \<in> keyBits ` set ds then None else kvOf (root t) xs)"
    by blast
  have "kvOf (root t') xs = None" for xs
  proof (cases "xs \<in> keyBits ` set ds")
    case True
    then show ?thesis by (simp add: m')
  next
    case False
    then have "xs \<notin> keyBits ` fst ` set (rev ps)" using assms(3) by auto
    then have "map_of (map (\<lambda>(key, v). (keyBits key, v)) (rev ps)) xs = None"
      using map_of_dom_keyBits [of "rev ps" xs] by blast
    then show ?thesis using False by (simp add: m' m rev_map)
  qed
  then have "kvOf (root t') = Map.empty" by (rule ext)
  from wfTree_empty_map [OF w' this] have "root t' = Nil" .
  then show ?thesis using p d r0 by (simp add: Hash_def)
qed

theorem C8_del_all_gives_empty_witness:
  "\<exists>t t'. putAll \<lparr>keyLength = 1, root = Nil\<rparr> [([0x00], [0x78]), ([0x40], [0x79]), ([0x80], [0x7A])] = Inr t \<and>
     delAll t [[0x40], [0x80], [0x00]] = Inr t' \<and> root t' = Nil \<and>
     Hash prefixHasher t' = Inr [] \<and> Hash prefixHasher \<lparr>keyLength = 1, root = Nil\<rparr> = Inr []"
proof -
  have a: "NewTree 1 = Inr \<lparr>keyLength = 1, root = Nil\<rparr>"
    by (simp add: NewTree_def maxKeyLength_def)
  have b: "\<forall>(key, v) \<in> set [([0x00 :: byte], [0x78 :: byte]), ([0x40], [0x79]), ([0x80], [0x7A])].
             int (length key) = 1"
    by simp
  have c: "fst ` set [([0x00 :: byte], [0x78 :: byte]), ([0x40], [0x79]), ([0x80], [0x7A])]
             \<subseteq> set [[0x40], [0x80], [0x00]]"
    by simp
  show ?thesis by (rule C8_del_all_gives_empty [OF a b c])
qed

section \<open>Runs of operations\<close>

lemma setBits_in:
  assumes "j \<le> n" "0 \<le> off" "nat off + n \<le> 8 * length src" "n \<le> 8 * length dst"
  shows "\<exists>d. setBits src off dst n j = Inr d \<and> length d = length dst \<and>
           (\<forall>i. bitAt d i = (if j \<le> i \<and> i < n then bitAt src (nat off + i) \<or> bitAt dst i
                              else bitAt dst i))"
  using assms
proof (induction "n - j" arbitrary: j dst)
  case 0
  then have "n = j" by simp
  then show ?case by (auto simp add: setBits.simps)
next
  case (Suc k)
  then have lt: "j < n" by simp
  have "nat (off + int j) = nat off + j" using Suc.prems by simp
  moreover have "nat off + j < 8 * length src" using lt Suc.prems by simp
  ultimately have rd: "ReadBitI src (off + int j) = Inr (bitAt src (nat off + j))"
    using Suc.prems by (simp add: ReadBitI_def ReadBit_in)
  have "\<exists>d1. (if bitAt src (nat off + j) then SetBit dst j else Inr dst) = Inr d1 \<and>
          length d1 = length dst \<and>
          (\<forall>i. bitAt d1 i = (if i = j then bitAt src (nat off + j) \<or> bitAt dst j else bitAt dst i))"
  proof (cases "bitAt src (nat off + j)")
    case True
    have "j < 8 * length dst" using lt Suc.prems by simp
    from SetBit_in [OF this] True show ?thesis by auto
  next
    case False
    then show ?thesis by simp
  qed
  then obtain d1 where w: "(if bitAt src (nat off + j) then SetBit dst j else Inr dst) = Inr d1"
    and l1: "length d1 = length dst"
    and b1: "\<And>i. bitAt d1 i = (if i = j then bitAt src (nat off + j) \<or> bitAt dst j else bitAt dst i)"
    by blast
  have "k = n - (j + 1)" using Suc.hyps by simp
  from Suc.hyps(1) [OF this, of d1] obtain d where
    c: "setBits src off d1 n (j + 1) = Inr d" and l: "length d = length d1"
    and b: "\<And>i. bitAt d i = (if j + 1 \<le> i \<and> i < n then bitAt src (nat off + i) \<or> bitAt d1 i
                                else bitAt d1 i)"
    using lt Suc.prems l1 by auto
  have "setBits src off dst n j = Inr d"
    using lt rd w c by (subst setBits.simps) simp
  moreover have "\<And>i. bitAt d i = (if j \<le> i \<and> i < n then bitAt src (nat off + i) \<or> bitAt dst i
                                else bitAt dst i)"
    using lt by (auto simp: b b1)
  ultimately show ?case using l l1 by auto
qed

lemma proveLoop_wf:
  assumes "wfNode n t" "index + n = length key * 8"
  shows "\<exists>r. proveLoop H key index t sc hv = Inr r \<and>
           (r = None \<longleftrightarrow> kvOf t (drop index (keyBits key)) = None)"
  using assms
proof (induction t arbitrary: n index sc hv)
  case Nil
  then show ?case by simp
next
  case (Leaf v)
  then have "drop index (keyBits key) = []" by simp
  then show ?case by simp
next
  case (Full l r)
  from Full.prems have n1: "1 \<le> n" and wl: "wfNode (n - 1) l" and wr: "wfNode (n - 1) r" by auto
  from Full.prems n1 have lt: "index < length key * 8" and ix: "index + 1 + (n - 1) = length key * 8"
    by auto
  have rd: "ReadBit key index = Inr (bitAt key index)"
    using lt by (intro ReadBit_in) simp
  have ks: "drop index (keyBits key) = bitAt key index # drop (index + 1) (keyBits key)"
    using lt by (rule drop_keyBits_Cons)
  from hashNode_wf [OF wl, of H] hashNode_wf [OF wr, of H] obtain hl hr where
    h: "hashNode H l = Inr hl" "hashNode H r = Inr hr" by blast
  show ?case
    using Full.IH(1) [OF wl ix, of "sc @ [0]" "hv @ [hr]"]
      Full.IH(2) [OF wr ix, of "sc @ [0]" "hv @ [hl]"] rd h
    by (cases "bitAt key index") (simp_all add: ks)
next
  case (Short c p ch)
  let ?ks = "drop index (keyBits key)"
  from Short.prems have c1: "1 \<le> c" and cn: "c \<le> n" and wp: "wfPath c p"
    and wch: "wfNode (n - c) ch" by auto
  have cp: "c \<le> 8 * length p" using wp by (rule wfPath_bound)
  have ik: "index + c \<le> 8 * length key" using Short.prems cn by simp
  have ix: "index + c + (n - c) = length key * 8" using Short.prems cn by simp
  have ml: "matchLoop key index p c 0 = Inr (\<forall>m. m < c \<longrightarrow> bitAt key (m + index) = bitAt p m)"
    using matchLoop_in [OF _ ik cp, of 0] by simp
  have tk: "take c ?ks = map (\<lambda>j. bitAt key (j + index)) [0..<c]"
    using ik by (intro take_drop_keyBits) simp
  have iff: "(\<forall>m. m < c \<longrightarrow> bitAt key (m + index) = bitAt p m) \<longleftrightarrow> take c ?ks = bitsOf p c"
    unfolding tk bitsOf_def by (auto simp: list_eq_iff_nth_eq)
  show ?case
  proof (cases "take c ?ks = bitsOf p c")
    case True
    then have "?ks = bitsOf p c @ drop (index + c) (keyBits key)"
      by (metis append_take_drop_id drop_drop add.commute)
    then have "kvOf (Short c p ch) ?ks = kvOf ch (drop (index + c) (keyBits key))"
      by simp
    then show ?thesis
      using ml iff True Short.IH [OF wch ix, of "sc @ [word_of_nat c]" hv] by simp
  next
    case False
    then have "kvOf (Short c p ch) ?ks = None" by simp
    then show ?thesis using ml iff False by simp
  qed
qed

lemma Prove_wf:
  assumes "wfTree t" "int (length key) = keyLength t"
  shows "\<exists>r. Prove H t key = Inr r \<and> (r = None \<longleftrightarrow> treeMap t key = None)"
proof -
  have n: "nat (keyLength t) = length key" using assms by auto
  have "nat 0 + length key \<le> 8 * length key" "length key \<le> 8 * length (MakeBitVector (length key))"
    by simp_all
  from setBits_in [OF _ _ this, of 0] obtain d where
    sb: "setBits key 0 (MakeBitVector (length key)) (length key) 0 = Inr d" by auto
  have "\<exists>r. proveLoop H key 0 (root t) [] [] = Inr r \<and> (r = None \<longleftrightarrow> kvOf (root t) (keyBits key) = None)"
  proof (cases "root t = Nil")
    case True
    then show ?thesis by simp
  next
    case False
    then have "wfNode (length key * 8) (root t)" using assms n by (simp add: wfTree_def)
    from proveLoop_wf [OF this, of 0 key H "[]" "[]"] show ?thesis by simp
  qed
  then show ?thesis using sb n by (simp add: Prove_def treeMap_def)
qed

lemma wfNode_mergeDiscipline: "wfNode n t \<Longrightarrow> mergeDiscipline t"
  by (induction t arbitrary: n) auto

lemma wfTree_mergeDiscipline: "wfTree t \<Longrightarrow> mergeDiscipline (root t)"
  using wfNode_mergeDiscipline by (auto simp: wfTree_def)

lemma step_wf:
  assumes "wfTree t" "step H t x = Inr t'"
  shows "wfTree t' \<and> keyLength t' = keyLength t"
proof (cases x)
  case (OpPut key v)
  show ?thesis
  proof (cases "int (length key) = keyLength t")
    case True
    from Put_correct [OF assms(1) True, of v] assms(2) OpPut show ?thesis by auto
  next
    case False
    then show ?thesis using assms OpPut by (simp add: Put_def)
  qed
next
  case (OpDel key)
  from Del_correct [OF assms(1), of key] assms(2) OpDel show ?thesis by auto
qed (use assms in \<open>auto simp: bindE_eq_Inr\<close>)

lemma step_total:
  assumes "wfTree t" "\<forall>key. x = OpProve key \<longrightarrow> int (length key) = keyLength t"
  shows "\<exists>t'. step H t x = Inr t'"
proof (cases x)
  case (OpPut key v)
  show ?thesis
  proof (cases "int (length key) = keyLength t")
    case True
    from Put_correct [OF assms(1) True, of v] OpPut show ?thesis by auto
  next
    case False
    then show ?thesis using OpPut by (simp add: Put_def)
  qed
next
  case (OpGet key)
  then show ?thesis using Get_correct [OF assms(1), of key] by simp
next
  case (OpDel key)
  from Del_correct [OF assms(1), of key] OpDel show ?thesis by auto
next
  case (OpProve key)
  with assms(2) have "int (length key) = keyLength t" by simp
  from Prove_wf [OF assms(1) this, of H] OpProve show ?thesis by auto
next
  case OpHash
  then show ?thesis using Hash_wf [OF assms(1), of H] by auto
qed

lemma run_wf: "wfTree t \<Longrightarrow> run H t ops = Inr t' \<Longrightarrow> wfTree t' \<and> keyLength t' = keyLength t"
proof (induction ops arbitrary: t)
  case Nil
  then show ?case by simp
next
  case (Cons x xs)
  from Cons.prems(2) obtain t1 where s: "step H t x = Inr t1" and r: "run H t1 xs = Inr t'"
    by (auto simp: bindE_eq_Inr)
  from step_wf [OF Cons.prems(1) s] Cons.IH [OF _ r] show ?case by simp
qed

lemma run_total:
  "wfTree t \<Longrightarrow> \<forall>key. OpProve key \<in> set ops \<longrightarrow> int (length key) = keyLength t \<Longrightarrow>
     \<exists>t'. run H t ops = Inr t'"
proof (induction ops arbitrary: t)
  case Nil
  then show ?case by simp
next
  case (Cons x xs)
  from Cons.prems(2) have "\<forall>key. x = OpProve key \<longrightarrow> int (length key) = keyLength t" by simp
  from step_total [OF Cons.prems(1) this, of H] obtain t1 where s: "step H t x = Inr t1" by blast
  from step_wf [OF Cons.prems(1) s] have w: "wfTree t1" and k: "keyLength t1 = keyLength t" by simp_all
  from Cons.prems(2) k have "\<forall>key. OpProve key \<in> set xs \<longrightarrow> int (length key) = keyLength t1" by simp
  from Cons.IH [OF w this] s show ?case by simp
qed

text \<open>
  Claim C7 (merge discipline).  Starting from a fresh trie, run any sequence of
  \<^verbatim>\<open>Put\<close>, \<^verbatim>\<open>Get\<close>, \<^verbatim>\<open>Del\<close>, \<^verbatim>\<open>Prove\<close> and \<^verbatim>\<open>Hash\<close> calls (a \<^verbatim>\<open>Put\<close> that returns
  \<^verbatim>\<open>ErrorIncompatibleKeyLength\<close> leaves the trie as it is; a panic ends the run).  The
  tree the run ends with has no short node with a short child, no full node with a
  \<^verbatim>\<open>nil\<close> child and no short node with count below 1; and the run does end with a tree
  when every key given to \<^verbatim>\<open>Prove\<close> has the configured length (the other operations
  never panic).
\<close>

theorem C7_merge_discipline:
  assumes "NewTree kl = Inr t0"
  shows "(\<forall>t. run H t0 ops = Inr t \<longrightarrow> mergeDiscipline (root t)) \<and>
         ((\<forall>key. OpProve key \<in> set ops \<longrightarrow> int (length key) = kl) \<longrightarrow> (\<exists>t. run H t0 ops = Inr t))"
proof -
  from NewTree_wf [OF assms] have w0: "wfTree t0" and k0: "keyLength t0 = kl" by simp_all
  show ?thesis
    using run_wf [OF w0, of H ops] run_total [OF w0, of ops H] k0 wfTree_mergeDiscipline
    by blast
qed

lemma eval_run_S4:
  "run prefixHasher \<lparr>keyLength = 1, root = Nil\<rparr>
     [OpPut [0x00] [0x78], OpPut [0x40] [0x79], OpPut [0x80] [0x7A], OpPut [0x80, 0x00] [0x7B],
      OpGet [0x00], OpProve [0x40], OpHash, OpDel [0x40]]
   = Inr \<lparr>keyLength = 1, root = Full (Short 7 [0x00] (Leaf [0x78])) (Short 7 [0x00] (Leaf [0x7A]))\<rparr>"
  by code_simp

theorem C7_merge_discipline_witness:
  "run prefixHasher \<lparr>keyLength = 1, root = Nil\<rparr>
     [OpPut [0x00] [0x78], OpPut [0x40] [0x79], OpPut [0x80] [0x7A], OpPut [0x80, 0x00] [0x7B],
      OpGet [0x00], OpProve [0x40], OpHash, OpDel [0x40]]
   = Inr \<lparr>keyLength = 1, root = Full (Short 7 [0x00] (Leaf [0x78])) (Short 7 [0x00] (Leaf [0x7A]))\<rparr>
   \<and> mergeDiscipline (Full (Short 7 [0x00] (Leaf [0x78])) (Short 7 [0x00] (Leaf [0x7A])))"
proof -
  have a: "NewTree 1 = Inr \<lparr>keyLength = 1, root = Nil\<rparr>"
    by (simp add: NewTree_def maxKeyLength_def)
  from C7_merge_discipline [OF a, of prefixHasher] eval_run_S4 show ?thesis by fastforce
qed

section \<open>Overwriting a value\<close>

lemma matchLoop_commonLoop:
  "matchLoop key index p n i = Inr True \<Longrightarrow> i \<le> n \<Longrightarrow> commonLoop key index p n i = Inr n"
proof (induction "n - i" arbitrary: i)
  case 0
  then show ?case by (simp add: commonLoop.simps)
next
  case (Suc k)
  then have lt: "i < n" by simp
  from Suc.prems(1) lt obtain a b where
    r: "ReadBit key (i + index) = Inr a" "ReadBit p i = Inr b" and ab: "a = b"
    and m: "matchLoop key index p n (i + 1) = Inr True"
    by (subst (asm) matchLoop.simps) (auto simp: bindE_eq_Inr split: if_splits)
  have "k = n - (i + 1)" using Suc.hyps by simp
  from Suc.hyps(1) [OF this m] lt have "commonLoop key index p n (i + 1) = Inr n" by simp
  then show ?case using lt r ab by (subst commonLoop.simps) simp
qed

lemma putNode_overwrite:
  assumes "getNode key index t = Inr (old, True)"
  shows "\<exists>tr. t = plug tr (Leaf old) \<and> putNode key v index t = Inr (plug tr (Leaf v), True) \<and>
           getNode key index (plug tr (Leaf v)) = Inr (v, True)"
  using assms
proof (induction t arbitrary: index)
  case Nil
  then show ?case by simp
next
  case (Leaf x)
  then have "plug [] (Leaf old) = Leaf x" by simp
  then show ?case by (intro exI [of _ "[]"]) simp
next
  case (Full l r)
  from Full.prems obtain b where rd: "ReadBit key index = Inr b"
    and g: "getNode key (index + 1) (if \<not> b then l else r) = Inr (old, True)"
    by (auto simp: bindE_eq_Inr split: if_splits)
  show ?case
  proof (cases b)
    case False
    with g Full.IH(1) [of "index + 1"] obtain tr where
      t: "l = plug tr (Leaf old)" and p: "putNode key v (index + 1) l = Inr (plug tr (Leaf v), True)"
      and g': "getNode key (index + 1) (plug tr (Leaf v)) = Inr (v, True)" by auto
    show ?thesis
      using t p g' rd False by (intro exI [of _ "tr @ [FullLeft r]"]) (simp add: plug_append)
  next
    case True
    with g Full.IH(2) [of "index + 1"] obtain tr where
      t: "r = plug tr (Leaf old)" and p: "putNode key v (index + 1) r = Inr (plug tr (Leaf v), True)"
      and g': "getNode key (index + 1) (plug tr (Leaf v)) = Inr (v, True)" by auto
    show ?thesis
      using t p g' rd True by (intro exI [of _ "tr @ [FullRight l]"]) (simp add: plug_append)
  qed
next
  case (Short c p ch)
  from Short.prems have ml: "matchLoop key index p c 0 = Inr True"
    and g: "getNode key (index + c) ch = Inr (old, True)"
    by (auto simp: bindE_eq_Inr split: if_splits)
  from matchLoop_commonLoop [OF ml] have cl: "commonLoop key index p c 0 = Inr c" by simp
  from g Short.IH [of "index + c"] obtain tr where
    t: "ch = plug tr (Leaf old)" and p: "putNode key v (index + c) ch = Inr (plug tr (Leaf v), True)"
    and g': "getNode key (index + c) (plug tr (Leaf v)) = Inr (v, True)" by auto
  show ?case
    using t p g' ml cl by (intro exI [of _ "tr @ [ShortChild c p]"]) (simp add: plug_append)
qed

text \<open>
  Claim C9 (frame property of overwrite).  When \<^verbatim>\<open>Get\<close> finds the key with value
  \<open>old\<close>, the tree is a trail of nodes around the leaf that holds \<open>old\<close>, and
  \<^verbatim>\<open>Put\<close> of the key returns true and the same trail (every full node, every short
  node with its count and path, every other subtree) around a leaf that holds the new
  value; that leaf is the one \<^verbatim>\<open>Get\<close> of the key reaches afterwards.
\<close>

theorem C9_overwrite_changes_only_the_leaf:
  assumes "Get t key = Inr (old, True)"
  shows "\<exists>tr. root t = plug tr (Leaf old) \<and>
           Put t key v = Inr (t\<lparr>root := plug tr (Leaf v)\<rparr>, True) \<and>
           Get (t\<lparr>root := plug tr (Leaf v)\<rparr>) key = Inr (v, True)"
proof -
  from assms have len: "keyLength t = int (length key)" and nn: "root t \<noteq> Nil"
    and g: "getNode key 0 (root t) = Inr (old, True)"
    by (auto simp: Get_def unsafeGet_def split: if_splits)
  from putNode_overwrite [OF g, of v] obtain tr where
    t: "root t = plug tr (Leaf old)" and p: "putNode key v 0 (root t) = Inr (plug tr (Leaf v), True)"
    and g': "getNode key 0 (plug tr (Leaf v)) = Inr (v, True)" by blast
  have "plug tr (Leaf v) \<noteq> Nil" using g' by auto
  then show ?thesis
    using t p g' len by (intro exI [of _ tr]) (simp add: Put_def unsafePut_def Get_def unsafeGet_def)
qed

lemma eval_Get_S3:
  "Get \<lparr>keyLength = 1, root = Full (Short 7 [0x00] (Leaf [0x78])) (Short 7 [0x00] (Leaf [0x79]))\<rparr> [0x80]
     = Inr ([0x79], True)"
  by code_simp

lemma eval_Put_S3:
  "Put \<lparr>keyLength = 1, root = Full (Short 7 [0x00] (Leaf [0x78])) (Short 7 [0x00] (Leaf [0x79]))\<rparr>
       [0x80] [0x7A]
     = Inr (\<lparr>keyLength = 1, root = Full (Short 7 [0x00] (Leaf [0x78])) (Short 7 [0x00] (Leaf [0x7A]))\<rparr>,
            True)"
  by code_simp

theorem C9_overwrite_changes_only_the_leaf_witness:
  "\<exists>tr. Full (Short 7 [0x00] (Leaf [0x78])) (Short 7 [0x00] (Leaf [0x79])) = plug tr (Leaf [0x79]) \<and>
         Full (Short 7 [0x00] (Leaf [0x78])) (Short 7 [0x00] (Leaf [0x7A])) = plug tr (Leaf [0x7A])"
  using C9_overwrite_changes_only_the_leaf [OF eval_Get_S3, of "[0x7A]"] eval_Put_S3
  by auto

section \<open>The loops end\<close>

lemma GetLoop_getNode: "GetLoop key cur index = Some (getNode key index cur)"
proof (induction cur arbitrary: index)
  case Nil
  show ?case by (subst GetLoop.simps) simp
next
  case (Leaf v)
  show ?case by (subst GetLoop.simps) simp
next
  case (Short n pth ch)
  show ?case by (subst GetLoop.simps) (simp add: Short.IH bindE_def split: sum.splits)
next
  case (Full l r)
  show ?case by (subst GetLoop.simps) (simp add: Full.IH bindE_def split: sum.splits)
qed

lemma ProveLoop_proveLoop:
  "ProveLoop H key cur index sc hv = Some (proveLoop H key index cur sc hv)"
proof (induction cur arbitrary: index sc hv)
  case Nil
  show ?case by (subst ProveLoop.simps) simp
next
  case (Leaf v)
  show ?case by (subst ProveLoop.simps) simp
next
  case (Short n pth ch)
  show ?case by (subst ProveLoop.simps) (simp add: Short.IH bindE_def split: sum.splits)
next
  case (Full l r)
  show ?case by (subst ProveLoop.simps) (simp add: Full.IH bindE_def split: sum.splits)
qed

lemma DelLoop_delLoop: "DelLoop key cur index trail = Some (delLoop key index cur trail)"
proof (induction cur arbitrary: index trail)
  case Nil
  show ?case by (subst DelLoop.simps) simp
next
  case (Leaf v)
  show ?case by (subst DelLoop.simps) simp
next
  case (Short n pth ch)
  show ?case by (subst DelLoop.simps) (simp add: Short.IH bindE_def split: sum.splits)
next
  case (Full l r)
  show ?case by (subst DelLoop.simps) (simp add: Full.IH bindE_def split: sum.splits)
qed

lemma PutLoop_Nil:
  "PutLoop key v trail Nil index = Some (plugResult trail (putNode key v index Nil))"
proof -
  consider (e) "index = length key * 8" | (l) "index < length key * 8" | (g) "length key * 8 < index"
    by linarith
  then show ?thesis
  proof cases
    case e
    then show ?thesis by (subst PutLoop.simps) (simp add: plugResult_def putNil_def)
  next
    case g
    then show ?thesis by (subst PutLoop.simps) (simp add: plugResult_def putNil_def)
  next
    case l
    let ?fc = "length key * 8 - index"
    show ?thesis
    proof (cases "copyBits key index (MakeBitVector ?fc) 0 ?fc 0")
      case (Inl err)
      with l show ?thesis by (subst PutLoop.simps) (simp add: plugResult_def putNil_def Let_def)
    next
      case (Inr fp)
      have "PutLoop key v (ShortChild ?fc fp # trail) Nil (index + ?fc)
              = Some (Inr (plug (ShortChild ?fc fp # trail) (Leaf v), False))"
        using l by (subst PutLoop.simps) simp
      with l Inr show ?thesis by (subst PutLoop.simps) (simp add: plugResult_def putNil_def Let_def)
    qed
  qed
qed

lemma PutLoop_putNode:
  "PutLoop key v trail cur index = Some (plugResult trail (putNode key v index cur))"
proof (induction cur arbitrary: index trail)
  case Nil
  show ?case by (rule PutLoop_Nil)
next
  case (Leaf old)
  show ?case by (subst PutLoop.simps) (simp add: plugResult_def)
next
  case (Full l r)
  show ?case
    by (subst PutLoop.simps)
      (auto simp add: Full.IH plugResult_def bindE_def split: sum.splits prod.splits)
next
  case (Short c pth ch)
  show ?case
  proof (cases "commonLoop key index pth c 0")
    case (Inl e)
    then show ?thesis by (subst PutLoop.simps) (simp add: plugResult_def)
  next
    case cl: (Inr cc)
    show ?thesis
    proof (cases "cc = c")
      case True
      with cl show ?thesis
        by (subst PutLoop.simps)
          (auto simp add: Short.IH plugResult_def bindE_def split: sum.splits prod.splits)
    next
      case False
      let ?cp = "if cc > 0 then copyBits key index (MakeBitVector cc) 0 cc 0 else Inr []"
      let ?rm = "let remainCount = c - cc - 1 in
                   if remainCount > 0
                   then bindE (copyBits pth (cc + 1) (MakeBitVector remainCount) 0 remainCount 0)
                          (\<lambda>remainPath. Inr (Short remainCount remainPath ch))
                   else Inr ch"
      show ?thesis
      proof (cases ?cp)
        case (Inl e)
        with cl False show ?thesis by (subst PutLoop.simps) (simp add: plugResult_def)
      next
        case cp: (Inr commonPath)
        show ?thesis
        proof (cases "ReadBit pth cc")
          case (Inl e)
          with cl False cp show ?thesis by (subst PutLoop.simps) (simp add: plugResult_def)
        next
          case pb: (Inr pathBit)
          show ?thesis
          proof (cases ?rm)
            case (Inl e)
            with cl False cp pb show ?thesis
              by (subst PutLoop.simps) (simp add: plugResult_def Let_def)
          next
            case rm: (Inr remain)
            have "PutLoop key v trail (Short c pth ch) index
                    = PutLoop key v ((if pathBit then FullLeft remain else FullRight remain) #
                         (if cc > 0 then ShortChild cc commonPath # trail else trail))
                        Nil (index + cc + 1)"
              using cl False cp pb rm by (subst PutLoop.simps) simp
            also have "\<dots> = Some (plugResult ((if pathBit then FullLeft remain else FullRight remain) #
                         (if cc > 0 then ShortChild cc commonPath # trail else trail))
                         (putNode key v (index + cc + 1) Nil))"
              by (rule PutLoop_Nil)
            also have "\<dots> = Some (plugResult trail (putNode key v index (Short c pth ch)))"
              using cl False cp pb rm
              by (cases "putNil key v (index + cc + 1)") (auto simp add: plugResult_def Let_def)
            finally show ?thesis .
          qed
        qed
      qed
    qed
  qed
qed

lemma loops_return_on_wfTree:
  assumes "wfTree t" "int (length key) = keyLength t"
  shows "(\<exists>r. PutLoop key v [] (root t) 0 = Some (Inr r)) \<and>
         (\<exists>r. GetLoop key (root t) 0 = Some (Inr r)) \<and>
         (\<exists>r. ProveLoop H key (root t) 0 [] [] = Some (Inr r)) \<and>
         (\<exists>r. DelLoop key (root t) 0 [] = Some (Inr r))"
proof (intro conjI)
  from Put_correct [OF assms, of v] obtain t' b where "Put t key v = Inr (t', b)" by blast
  then obtain r where "putNode key v 0 (root t) = Inr r"
    using assms(2) by (auto simp: Put_def unsafePut_def bindE_eq_Inr)
  then show "\<exists>r. PutLoop key v [] (root t) 0 = Some (Inr r)"
    by (cases r) (simp add: PutLoop_putNode plugResult_def)
  have n: "nat (keyLength t) * 8 = length key * 8" using assms by auto
  show "\<exists>r. GetLoop key (root t) 0 = Some (Inr r)"
  proof (cases "root t = Nil")
    case True
    then show ?thesis by (auto simp add: GetLoop_getNode)
  next
    case False
    then have "wfNode (length key * 8) (root t)" using assms n by (simp add: wfTree_def)
    from getNode_correct [OF this, of 0] show ?thesis by (auto simp add: GetLoop_getNode)
  qed
  show "\<exists>r. ProveLoop H key (root t) 0 [] [] = Some (Inr r)"
  proof (cases "root t = Nil")
    case True
    then show ?thesis by (auto simp add: ProveLoop_proveLoop)
  next
    case False
    then have "wfNode (length key * 8) (root t)" using assms n by (simp add: wfTree_def)
    from proveLoop_wf [OF this, of 0 key H "[]" "[]"] show ?thesis
      by (auto simp add: ProveLoop_proveLoop)
  qed
  show "\<exists>r. DelLoop key (root t) 0 [] = Some (Inr r)"
  proof (cases "root t = Nil")
    case True
    then show ?thesis by (auto simp add: DelLoop_delLoop)
  next
    case False
    then have "wfNode (length key * 8) (root t)" using assms n by (simp add: wfTree_def)
    from delLoop_correct [OF this, of 0 key "[]"] show ?thesis
      by (cases "kvOf (root t) (keyBits key)") (auto simp add: DelLoop_delLoop)
  qed
qed

text \<open>
  Claim C10 (termination of the traversal loops).  \<open>PutLoop\<close>, \<open>GetLoop\<close>,
  \<open>ProveLoop\<close> and \<open>DelLoop\<close> are the four \<^verbatim>\<open>for\<close> loops with their cursor, and
  \<open>None\<close> is the value of a loop that does not end.  Each of them ends, from every
  node, trail, index and key; in particular from the root of a trie that satisfies the
  structural invariants, with a key of the configured length.
\<close>

theorem C10_traversal_loops_terminate:
  "(\<exists>res. PutLoop key v trail cur index = Some res) \<and>
   (\<exists>res. GetLoop key cur index = Some res) \<and>
   (\<exists>res. ProveLoop H key cur index shortCounts hashValues = Some res) \<and>
   (\<exists>res. DelLoop key cur index trail = Some res)"
  by (simp add: PutLoop_putNode GetLoop_getNode ProveLoop_proveLoop DelLoop_delLoop)

theorem C10_traversal_loops_terminate_witness:
  "(\<exists>res. PutLoop [0x80] [0x7A] []
            (Full (Short 7 [0x00] (Leaf [0x78])) (Short 7 [0x00] (Leaf [0x79]))) 0 = Some res) \<and>
   (\<exists>res. GetLoop [0x80]
            (Full (Short 7 [0x00] (Leaf [0x78])) (Short 7 [0x00] (Leaf [0x79]))) 0 = Some res) \<and>
   (\<exists>res. ProveLoop prefixHasher [0x80]
            (Full (Short 7 [0x00] (Leaf [0x78])) (Short 7 [0x00] (Leaf [0x79]))) 0 [] [] = Some res) \<and>
   (\<exists>res. DelLoop [0x80]
            (Full (Short 7 [0x00] (Leaf [0x78])) (Short 7 [0x00] (Leaf [0x79]))) 0 [] = Some res)"
  by (rule C10_traversal_loops_terminate)

section \<open>The transcript of Prove\<close>

lemma proveLoop_transcript:
  assumes "wfNode n t" "index + n = length key * 8"
    and "kvOf t (drop index (keyBits key)) = Some v"
  shows "\<exists>tr. plug tr (Leaf v) = t \<and> holeBits tr = drop index (keyBits key) \<and>
           proveLoop H key index t sc hv =
             Inr (Some \<lparr>Key = key, HashValue = H leafNodeTag v,
                        ShortCounts = sc @ map frameCode (rev tr),
                        InterimHashes = hv @ concat (map (frameHashes H) (rev tr))\<rparr>)"
  using assms
proof (induction t arbitrary: n index sc hv)
  case Nil
  then show ?case by simp
next
  case (Leaf x)
  then have "drop index (keyBits key) = []" by simp
  with Leaf.prems(3) have "x = v" by simp
  then show ?case using \<open>drop index (keyBits key) = []\<close> by (intro exI [of _ "[]"]) simp
next
  case (Full l r)
  from Full.prems have n1: "1 \<le> n" and wl: "wfNode (n - 1) l" and wr: "wfNode (n - 1) r" by auto
  from Full.prems n1 have lt: "index < length key * 8" and ix: "index + 1 + (n - 1) = length key * 8"
    by auto
  have rd: "ReadBit key index = Inr (bitAt key index)"
    using lt by (intro ReadBit_in) simp
  have ks: "drop index (keyBits key) = bitAt key index # drop (index + 1) (keyBits key)"
    using lt by (rule drop_keyBits_Cons)
  from hashNode_wf [OF wl, of H] hashNode_wf [OF wr, of H] obtain hl hr where
    h: "hashNode H l = Inr hl" "hashNode H r = Inr hr" by blast
  show ?case
  proof (cases "bitAt key index")
    case False
    with Full.prems(3) have "kvOf l (drop (index + 1) (keyBits key)) = Some v" by (simp add: ks)
    from Full.IH(1) [OF wl ix this, of "sc @ [0]" "hv @ [hr]"] obtain tr where
      t: "plug tr (Leaf v) = l" "holeBits tr = drop (index + 1) (keyBits key)"
      and p: "proveLoop H key (index + 1) l (sc @ [0]) (hv @ [hr]) =
             Inr (Some \<lparr>Key = key, HashValue = H leafNodeTag v,
                        ShortCounts = (sc @ [0]) @ map frameCode (rev tr),
                        InterimHashes = (hv @ [hr]) @ concat (map (frameHashes H) (rev tr))\<rparr>)"
      by blast
    show ?thesis
      using t p rd False h
      by (intro exI [of _ "tr @ [FullLeft r]"]) (simp add: plug_append holeBits_append ks)
  next
    case True
    with Full.prems(3) have "kvOf r (drop (index + 1) (keyBits key)) = Some v" by (simp add: ks)
    from Full.IH(2) [OF wr ix this, of "sc @ [0]" "hv @ [hl]"] obtain tr where
      t: "plug tr (Leaf v) = r" "holeBits tr = drop (index + 1) (keyBits key)"
      and p: "proveLoop H key (index + 1) r (sc @ [0]) (hv @ [hl]) =
             Inr (Some \<lparr>Key = key, HashValue = H leafNodeTag v,
                        ShortCounts = (sc @ [0]) @ map frameCode (rev tr),
                        InterimHashes = (hv @ [hl]) @ concat (map (frameHashes H) (rev tr))\<rparr>)"
      by blast
    show ?thesis
      using t p rd True h
      by (intro exI [of _ "tr @ [FullRight l]"]) (simp add: plug_append holeBits_append ks)
  qed
next
  case (Short c p ch)
  let ?ks = "drop index (keyBits key)"
  let ?ks' = "drop (index + c) (keyBits key)"
  from Short.prems have c1: "1 \<le> c" and cn: "c \<le> n" and wp: "wfPath c p"
    and wch: "wfNode (n - c) ch" by auto
  have cp: "c \<le> 8 * length p" using wp by (rule wfPath_bound)
  have ik: "index + c \<le> 8 * length key" using Short.prems cn by simp
  have ix: "index + c + (n - c) = length key * 8" using Short.prems cn by simp
  have ml: "matchLoop key index p c 0 = Inr (\<forall>m. m < c \<longrightarrow> bitAt key (m + index) = bitAt p m)"
    using matchLoop_in [OF _ ik cp, of 0] by simp
  have tk: "take c ?ks = map (\<lambda>j. bitAt key (j + index)) [0..<c]"
    using ik by (intro take_drop_keyBits) simp
  have iff: "(\<forall>m. m < c \<longrightarrow> bitAt key (m + index) = bitAt p m) \<longleftrightarrow> take c ?ks = bitsOf p c"
    unfolding tk bitsOf_def by (auto simp: list_eq_iff_nth_eq)
  have True: "take c ?ks = bitsOf p c"
    using Short.prems(3) by (intro kvOf_Short_prefix [of c p ch]) simp
  then have ks: "?ks = bitsOf p c @ ?ks'"
    by (metis append_take_drop_id drop_drop add.commute)
  then have "kvOf (Short c p ch) ?ks = kvOf ch ?ks'" by simp
  with Short.prems(3) have "kvOf ch ?ks' = Some v" by simp
  from Short.IH [OF wch ix this, of "sc @ [word_of_nat c]" hv] obtain tr where
    t: "plug tr (Leaf v) = ch" "holeBits tr = ?ks'"
    and pl: "proveLoop H key (index + c) ch (sc @ [word_of_nat c]) hv =
             Inr (Some \<lparr>Key = key, HashValue = H leafNodeTag v,
                        ShortCounts = (sc @ [word_of_nat c]) @ map frameCode (rev tr),
                        InterimHashes = hv @ concat (map (frameHashes H) (rev tr))\<rparr>)"
    by blast
  show ?case
    using t pl ml iff True ks
    by (intro exI [of _ "tr @ [ShortChild c p]"]) (simp add: plug_append holeBits_append)
qed

lemma fullCount_simps [simp]:
  "fullCount [] = 0"
  "fullCount (f # fs) = (if frameIsFull f then Suc (fullCount fs) else fullCount fs)"
  "fullCount (xs @ ys) = fullCount xs + fullCount ys"
  by (simp_all add: fullCount_def)

lemma wfNode_plug_depth:
  "wfNode N (plug tr x) \<Longrightarrow> length (holeBits tr) \<le> N \<and> wfNode (N - length (holeBits tr)) x"
proof (induction tr arbitrary: x)
  case Nil
  then show ?case by simp
next
  case (Cons f fs)
  from Cons.prems have "wfNode N (plug fs (plug1 f x))" by simp
  from Cons.IH [OF this] have a: "length (holeBits fs) \<le> N"
    and b: "wfNode (N - length (holeBits fs)) (plug1 f x)" by simp_all
  show ?case
  proof (cases f)
    case (FullLeft r)
    with a b show ?thesis by (simp; arith)
  next
    case (FullRight l)
    with a b show ?thesis by (simp; arith)
  next
    case (ShortChild c p)
    with a b show ?thesis by (simp; arith)
  qed
qed

lemma frameBits_le_holeBits: "f \<in> set tr \<Longrightarrow> length (frameBits f) \<le> length (holeBits tr)"
  by (induction tr) auto

lemma wfNode_plug_frame:
  assumes "wfNode N (plug (done @ f # todo) x)"
  shows "\<exists>n. wfNode n (plug1 f (plug done x))"
proof -
  from assms have "wfNode N (plug todo (plug1 f (plug done x)))" by (simp add: plug_append)
  from wfNode_plug_depth [OF this] show ?thesis by blast
qed

lemma frameHashes_length:
  "wfNode N (plug tr x) \<Longrightarrow> length (concat (map (frameHashes H) (rev tr))) = fullCount tr"
proof (induction tr arbitrary: x)
  case Nil
  then show ?case by simp
next
  case (Cons f fs)
  from Cons.prems have w: "wfNode N (plug fs (plug1 f x))" by simp
  from wfNode_plug_depth [OF w] obtain n where wf: "wfNode n (plug1 f x)" by blast
  have "length (frameHashes H f) = (if frameIsFull f then 1 else 0)"
  proof (cases f)
    case (FullLeft r)
    with wf have "wfNode (n - 1) r" by simp
    from hashNode_wf [OF this, of H] FullLeft show ?thesis by auto
  next
    case (FullRight l)
    with wf have "wfNode (n - 1) l" by simp
    from hashNode_wf [OF this, of H] FullRight show ?thesis by auto
  next
    case (ShortChild c p)
    then show ?thesis by simp
  qed
  with Cons.IH [OF w] show ?case by simp
qed

lemma counts_sum:
  assumes "\<forall>c p. ShortChild c p \<in> set tr \<longrightarrow> c < 256"
  shows "int (fullCount tr) + (\<Sum>sc \<leftarrow> map frameCode (rev tr). int (unat sc)) = int (length (holeBits tr))"
  using assms
proof (induction tr)
  case Nil
  then show ?case by simp
next
  case (Cons f fs)
  from Cons.prems have "\<forall>c p. ShortChild c p \<in> set fs \<longrightarrow> c < 256" by auto
  from Cons.IH [OF this]
  have ih: "int (fullCount fs) + (\<Sum>sc \<leftarrow> map frameCode (rev fs). int (unat sc)) = int (length (holeBits fs))" .
  show ?case
  proof (cases f)
    case (FullLeft r)
    with ih show ?thesis by simp
  next
    case (FullRight l)
    with ih show ?thesis by simp
  next
    case (ShortChild c p)
    with Cons.prems have "c < 256" by simp
    then have "unat (word_of_nat c :: byte) = c" by (simp add: unat_of_nat)
    then have "uint (word_of_nat c :: byte) = int c" by (simp add: uint_nat)
    with ih ShortChild show ?thesis by simp
  qed
qed

section \<open>Verify follows the trail back\<close>

lemma verifyLoop_step_full:
  assumes "ShortCounts p ! i = 0" "0 \<le> hi" "hi < int (length (InterimHashes p))"
    and "ReadBitI (Key p) (pi - 1) = Inr b"
  shows "verifyLoop H p (Suc i) cur hi pi =
           verifyLoop H p i
             (if b then H fullNodeTag (InterimHashes p ! nat hi @ cur)
              else H fullNodeTag (cur @ InterimHashes p ! nat hi))
             (hi - 1) (pi - 1)"
  using assms by (simp add: Let_def)

lemma verifyLoop_step_short:
  assumes "ShortCounts p ! i = sc" "sc \<noteq> 0"
    and "setBits (Key p) (pi - int (unat sc)) (MakeBitVector (unat sc)) (unat sc) 0 = Inr d"
  shows "verifyLoop H p (Suc i) cur hi pi =
           verifyLoop H p i
             (H shortNodeTag (serializedPathSegmentLength (unat sc) @ d @ cur))
             hi (pi - int (unat sc))"
  using assms by (simp add: Let_def)

lemma setBits_fresh:
  assumes "L + c \<le> 8 * length key"
  shows "\<exists>d. setBits key (int L) (MakeBitVector c) c 0 = Inr d \<and> wfPath c d \<and>
           bitsOf d c = take c (drop L (keyBits key))"
proof -
  have "nat (int L) + c \<le> 8 * length key" "c \<le> 8 * length (MakeBitVector c)"
    using assms by simp_all
  from setBits_in [OF _ _ this, of 0] obtain d where
    s: "setBits key (int L) (MakeBitVector c) c 0 = Inr d" and l: "length d = length (MakeBitVector c)"
    and b: "\<And>i. bitAt d i = (if i < c then bitAt key (L + i) \<or> bitAt (MakeBitVector c) i
                                else bitAt (MakeBitVector c) i)" by auto
  have z: "\<And>i. i < 8 * length d \<Longrightarrow> \<not> bitAt (MakeBitVector c) i"
    using l bitAt_MakeBitVector [of _ c] by simp
  have w: "wfPath c d" using l b z by (auto simp: wfPath_def)
  have c8: "c \<le> 8 * length d" using w by (rule wfPath_bound)
  have "bitsOf d c = map (\<lambda>j. bitAt key (j + L)) [0..<c]"
    by (rule nth_equalityI) (use b z c8 in \<open>auto simp: add.commute\<close>)
  also have "\<dots> = take c (drop L (keyBits key))"
    using assms by (intro take_drop_keyBits [symmetric]) (simp add: add.commute mult.commute)
  finally show ?thesis using s w by blast
qed

lemma verifyLoop_trail:
  assumes "wfNode N (plug (done @ todo) (Leaf v))"
    and "holeBits (done @ todo) = keyBits (Key p)"
    and "\<forall>c q. ShortChild c q \<in> set todo \<longrightarrow> c < 256"
    and "ShortCounts p = map frameCode (rev (done @ todo))"
    and "InterimHashes p = concat (map (frameHashes H) (rev (done @ todo)))"
    and "hashNode H (plug done (Leaf v)) = Inr cur"
  shows "\<exists>h. hashNode H (plug (done @ todo) (Leaf v)) = Inr h \<and>
           verifyLoop H p (length todo) cur (int (fullCount todo) - 1)
             (int (length (holeBits todo))) = Inr (h, 0)"
  using assms
proof (induction todo arbitrary: "done" cur)
  case Nil
  then show ?case by simp
next
  case (Cons f todo')
  let ?X = "plug done (Leaf v)"
  let ?L = "length (holeBits todo')"
  let ?key = "Key p"
  note wf = Cons.prems(1) and key = Cons.prems(2) and small = Cons.prems(3)
    and sc = Cons.prems(4) and ih = Cons.prems(5) and cur = Cons.prems(6)
  from wfNode_plug_frame [OF wf] obtain n where wfX: "wfNode n (plug1 f ?X)" by blast
  have tr: "done @ f # todo' = (done @ [f]) @ todo'" by simp
  have kb: "keyBits ?key = holeBits todo' @ frameBits f @ holeBits done"
    using key by (simp add: holeBits_append)
  then have "length (keyBits ?key) = ?L + length (frameBits f) + length (holeBits done)"
    by simp
  then have len: "?L + length (frameBits f) \<le> 8 * length ?key" by simp
  have entry: "ShortCounts p ! length todo' = frameCode f"
    by (simp add: sc nth_append)
  have wf': "wfNode N (plug todo' (plug (done @ [f]) (Leaf v)))"
    using wf by (simp add: plug_append)
  have lh: "length (concat (map (frameHashes H) (rev todo'))) = fullCount todo'"
    using wf' by (rule frameHashes_length)
  have step: "\<exists>cur'. hashNode H (plug (done @ [f]) (Leaf v)) = Inr cur' \<and>
      verifyLoop H p (Suc (length todo')) cur (int (fullCount (f # todo')) - 1)
             (int (length (holeBits (f # todo')))) =
      verifyLoop H p (length todo') cur' (int (fullCount todo') - 1) (int ?L)"
  proof (cases f)
    case (FullLeft r)
    with wfX have "wfNode (n - 1) r" by simp
    from hashNode_wf [OF this, of H] obtain hr where hr: "hashNode H r = Inr hr" by blast
    have e0: "ShortCounts p ! length todo' = 0" using entry FullLeft by simp
    have ihs: "InterimHashes p = concat (map (frameHashes H) (rev todo')) @ [hr] @
                 concat (map (frameHashes H) (rev done))"
      using ih FullLeft hr by simp
    have nb: "InterimHashes p ! nat (int (fullCount todo')) = hr"
      unfolding ihs using lh by (simp add: nth_append)
    have hi: "0 \<le> int (fullCount todo')" "int (fullCount todo') < int (length (InterimHashes p))"
      unfolding ihs using lh by simp_all
    have lt: "?L < 8 * length ?key" using len FullLeft by simp
    have "bitAt ?key ?L = keyBits ?key ! ?L" using lt by (simp add: keyBits_def mult.commute)
    also have "\<dots> = False" unfolding kb using FullLeft by (simp add: nth_append)
    finally have "ReadBit ?key ?L = Inr False" using lt by (simp add: ReadBit_in)
    then have rb: "ReadBitI ?key (int (Suc ?L) - 1) = Inr False" by (simp add: ReadBitI_def)
    have "verifyLoop H p (Suc (length todo')) cur (int (fullCount todo')) (int (Suc ?L)) =
            verifyLoop H p (length todo') (H fullNodeTag (cur @ hr)) (int (fullCount todo') - 1)
              (int (Suc ?L) - 1)"
      using verifyLoop_step_full [OF e0 hi rb, of H cur] nb by simp
    moreover have "hashNode H (plug (done @ [f]) (Leaf v)) = Inr (H fullNodeTag (cur @ hr))"
      using FullLeft cur hr by (simp add: plug_append)
    ultimately show ?thesis using FullLeft by simp
  next
    case (FullRight l)
    with wfX have "wfNode (n - 1) l" by simp
    from hashNode_wf [OF this, of H] obtain hl where hl: "hashNode H l = Inr hl" by blast
    have e0: "ShortCounts p ! length todo' = 0" using entry FullRight by simp
    have ihs: "InterimHashes p = concat (map (frameHashes H) (rev todo')) @ [hl] @
                 concat (map (frameHashes H) (rev done))"
      using ih FullRight hl by simp
    have nb: "InterimHashes p ! nat (int (fullCount todo')) = hl"
      unfolding ihs using lh by (simp add: nth_append)
    have hi: "0 \<le> int (fullCount todo')" "int (fullCount todo') < int (length (InterimHashes p))"
      unfolding ihs using lh by simp_all
    have lt: "?L < 8 * length ?key" using len FullRight by simp
    have "bitAt ?key ?L = keyBits ?key ! ?L" using lt by (simp add: keyBits_def mult.commute)
    also have "\<dots> = True" unfolding kb using FullRight by (simp add: nth_append)
    finally have "ReadBit ?key ?L = Inr True" using lt by (simp add: ReadBit_in)
    then have rb: "ReadBitI ?key (int (Suc ?L) - 1) = Inr True" by (simp add: ReadBitI_def)
    have "verifyLoop H p (Suc (length todo')) cur (int (fullCount todo')) (int (Suc ?L)) =
            verifyLoop H p (length todo') (H fullNodeTag (hl @ cur)) (int (fullCount todo') - 1)
              (int (Suc ?L) - 1)"
      using verifyLoop_step_full [OF e0 hi rb, of H cur] nb by simp
    moreover have "hashNode H (plug (done @ [f]) (Leaf v)) = Inr (H fullNodeTag (hl @ cur))"
      using FullRight cur hl by (simp add: plug_append)
    ultimately show ?thesis using FullRight by simp
  next
    case (ShortChild c q)
    with wfX have c1: "1 \<le> c" and wq: "wfPath c q" by simp_all
    from small ShortChild have c256: "c < 256" by simp
    have un: "unat (word_of_nat c :: byte) = c" using c256 by (simp add: unat_of_nat)
    then have nz: "(word_of_nat c :: byte) \<noteq> 0" using c1 by (metis not_one_le_zero unat_0)
    have e: "ShortCounts p ! length todo' = word_of_nat c" using entry ShortChild by simp
    have lc: "?L + c \<le> 8 * length ?key" using len ShortChild by simp
    from setBits_fresh [OF lc] obtain d where
      sb: "setBits ?key (int ?L) (MakeBitVector c) c 0 = Inr d" and wd: "wfPath c d"
      and bd: "bitsOf d c = take c (drop ?L (keyBits ?key))" by blast
    have "take c (drop ?L (keyBits ?key)) = bitsOf q c"
      unfolding kb using ShortChild by simp
    with bd have "bitsOf d c = bitsOf q c" by simp
    with wd wq have dq: "d = q" by (rule wfPath_eqI)
    have sb': "setBits ?key (int (?L + c) - int (unat (word_of_nat c :: byte)))
                 (MakeBitVector (unat (word_of_nat c :: byte))) (unat (word_of_nat c :: byte)) 0 = Inr q"
      using sb dq un by simp
    have "verifyLoop H p (Suc (length todo')) cur (int (fullCount todo') - 1) (int (?L + c)) =
            verifyLoop H p (length todo')
              (H shortNodeTag (serializedPathSegmentLength c @ q @ cur))
              (int (fullCount todo') - 1) (int ?L)"
      using verifyLoop_step_short [OF e nz sb', of H cur "int (fullCount todo') - 1"] un by simp
    moreover have "hashNode H (plug (done @ [f]) (Leaf v)) =
        Inr (H shortNodeTag (serializedPathSegmentLength c @ q @ cur))"
      using ShortChild cur by (simp add: plug_append)
    ultimately show ?thesis using ShortChild by simp
  qed
  then obtain cur' where c': "hashNode H (plug (done @ [f]) (Leaf v)) = Inr cur'"
    and st: "verifyLoop H p (Suc (length todo')) cur (int (fullCount (f # todo')) - 1)
             (int (length (holeBits (f # todo')))) =
      verifyLoop H p (length todo') cur' (int (fullCount todo') - 1) (int ?L)" by blast
  have small': "\<forall>c q. ShortChild c q \<in> set todo' \<longrightarrow> c < 256" using small by simp
  from Cons.IH [OF wf [unfolded tr] key [unfolded tr] small' sc [unfolded tr] ih [unfolded tr] c']
  obtain h where "hashNode H (plug ((done @ [f]) @ todo') (Leaf v)) = Inr h"
    "verifyLoop H p (length todo') cur' (int (fullCount todo') - 1) (int ?L) = Inr (h, 0)"
    by blast
  then show ?case using st by simp
qed

lemma countsBelow_hole: "countsBelow b (plug tr x) \<Longrightarrow> countsBelow b x"
proof (induction tr arbitrary: x)
  case Nil
  then show ?case by simp
next
  case (Cons f fs)
  from Cons.prems have "countsBelow b (plug fs (plug1 f x))" by simp
  from Cons.IH [OF this] show ?case by (cases f) simp_all
qed

lemma countsBelow_plug:
  "countsBelow b (plug tr x) \<Longrightarrow> ShortChild c q \<in> set tr \<Longrightarrow> c < b"
proof (induction tr arbitrary: x)
  case Nil
  then show ?case by simp
next
  case (Cons f fs)
  note sub = countsBelow_hole
  from Cons.prems(1) have p: "countsBelow b (plug fs (plug1 f x))" by simp
  show ?case
  proof (cases "ShortChild c q = f")
    case True
    with sub [OF p] show ?thesis by auto
  next
    case False
    with Cons.prems(2) have "ShortChild c q \<in> set fs" by simp
    from Cons.IH [OF p this] show ?thesis .
  qed
qed

lemma wfNode_countsBelow: "wfNode n t \<Longrightarrow> n < b \<Longrightarrow> countsBelow b t"
  by (induction t arbitrary: n) auto

text \<open>
  The other side of claim C3: where every short node of the trie has a count below
  256, so that \<^verbatim>\<open>uint8(n.count)\<close> loses nothing, the proof that \<^verbatim>\<open>Prove\<close> returns for a
  key of the trie is accepted by \<^verbatim>\<open>Verify\<close> with the trie's root hash.  Keys of at most
  31 bytes are such a case.
\<close>

lemma Prove_Verify_sound:
  assumes w: "wfTree t" and b: "countsBelow 256 (root t)" and k: "treeMap t key = Some v"
  shows "\<exists>p h. Prove H t key = Inr (Some p) \<and> Hash H t = Inr h \<and> Verify H p h = Inr True"
proof -
  have len: "keyLength t = int (length key)"
    using kvOf_wrong_length [OF w, of key] k by (auto simp: treeMap_def)
  have nn: "root t \<noteq> Nil" using k by (auto simp: treeMap_def)
  then have wr: "wfNode (length key * 8) (root t)" using w len by (simp add: wfTree_def)
  have k0: "kvOf (root t) (drop 0 (keyBits key)) = Some v" using k by (simp add: treeMap_def)
  from proveLoop_transcript [OF wr _ k0, of H "[]" "[]"] obtain tr where
    pl: "plug tr (Leaf v) = root t" and hb: "holeBits tr = keyBits key"
    and pr: "proveLoop H key 0 (root t) [] [] = Inr (Some (transcript H key v tr))"
    by (auto simp: transcript_def)
  let ?p = "transcript H key v tr"
  have "nat 0 + length key \<le> 8 * length key" "length key \<le> 8 * length (MakeBitVector (length key))"
    by simp_all
  from setBits_in [OF _ _ this, of 0] obtain d where
    "setBits key 0 (MakeBitVector (length key)) (length key) 0 = Inr d" by auto
  then have P: "Prove H t key = Inr (Some ?p)" using pr len by (simp add: Prove_def)
  have small: "\<forall>c q. ShortChild c q \<in> set tr \<longrightarrow> c < 256"
    using countsBelow_plug [of 256 tr "Leaf v"] b pl by auto
  have wf0: "wfNode (length key * 8) (plug ([] @ tr) (Leaf v))" using wr pl by simp
  have "\<exists>h. hashNode H (plug ([] @ tr) (Leaf v)) = Inr h \<and>
           verifyLoop H ?p (length tr) (H leafNodeTag v) (int (fullCount tr) - 1)
             (int (length (holeBits tr))) = Inr (h, 0)"
    by (rule verifyLoop_trail [OF wf0 _ small]) (simp_all add: transcript_def hb)
  then obtain h where hh: "hashNode H (root t) = Inr h"
    and vl: "verifyLoop H ?p (length tr) (H leafNodeTag v) (int (fullCount tr) - 1)
             (int (length (holeBits tr))) = Inr (h, 0)" using pl by auto
  have li: "length (InterimHashes ?p) = fullCount tr"
    using frameHashes_length [of "length key * 8" tr "Leaf v" H] wr pl by (simp add: transcript_def)
  have "int (length (InterimHashes ?p)) + (\<Sum>sc \<leftarrow> ShortCounts ?p. int (unat sc))
          = int (length (holeBits tr))"
    using counts_sum [OF small] li by (simp add: transcript_def)
  then have V: "Verify H ?p h = Inr True"
    using vl li by (simp add: Verify_def Let_def transcript_def)
  have "Hash H t = Inr h" using hh nn by (simp add: Hash_def)
  with P V show ?thesis by blast
qed

lemma Prove_Verify_sound_short_keys:
  assumes "wfTree t" "keyLength t \<le> 31" "treeMap t key = Some v"
  shows "\<exists>p h. Prove H t key = Inr (Some p) \<and> Hash H t = Inr h \<and> Verify H p h = Inr True"
proof -
  from assms(3) have "root t \<noteq> Nil" by (auto simp: treeMap_def)
  with assms(1) have "wfNode (nat (keyLength t) * 8) (root t)" by (simp add: wfTree_def)
  moreover have "nat (keyLength t) * 8 < 256" using assms(2) by simp
  ultimately have "countsBelow 256 (root t)" by (rule wfNode_countsBelow)
  with assms show ?thesis by (intro Prove_Verify_sound)
qed

text \<open>
  The parts of claim C4 that do not depend on the hash function: \<^verbatim>\<open>Prove\<close> finds no
  proof for a key of the configured length that is not in the trie, and a proof that
  \<^verbatim>\<open>Verify\<close> accepts for one root is rejected for every other root.
\<close>

lemma Prove_absent_key:
  assumes "wfTree t" "int (length key) = keyLength t" "treeMap t key = None"
  shows "Prove H t key = Inr None"
  using Prove_wf [OF assms(1,2), of H] assms(3) by auto

lemma Verify_other_root:
  assumes "Verify H p r = Inr True" "r' \<noteq> r"
  shows "Verify H p r' = Inr False"
  using assms by (auto simp: Verify_def Let_def bindE_eq_Inr split: if_splits)

text \<open>
  The parts of claim C6 that hold: \<^verbatim>\<open>NewTree\<close> fails exactly outside \<open>[1, 8192]\<close> and
  \<^verbatim>\<open>Put\<close> on a well-formed trie exactly on a key of another length, both with
  \<^verbatim>\<open>ErrorIncompatibleKeyLength\<close>; \<^verbatim>\<open>Get\<close> and \<^verbatim>\<open>Del\<close> answer "not found" on such a
  key.
\<close>

lemma NewTree_error:
  "NewTree kl = Inl e \<longleftrightarrow> e = ErrorIncompatibleKeyLength \<and> (kl < 1 \<or> 8192 < kl)"
  by (auto simp: NewTree_def maxKeyLength_def)

lemma Put_error:
  assumes "wfTree t"
  shows "Put t key v = Inl e \<longleftrightarrow> e = ErrorIncompatibleKeyLength \<and> int (length key) \<noteq> keyLength t"
proof (cases "int (length key) = keyLength t")
  case True
  from Put_correct [OF assms True, of v] True show ?thesis by auto
next
  case False
  then show ?thesis by (auto simp: Put_def)
qed

lemma Get_wrong_length: "keyLength t \<noteq> int (length key) \<Longrightarrow> Get t key = Inr ([], False)"
  by (simp add: Get_def)

lemma Del_wrong_length: "keyLength t \<noteq> int (length key) \<Longrightarrow> Del t key = Inr (t, False)"
  by (simp add: Del_def)

section \<open>Claims settled by running the code\<close>

text \<open>
  Claim C5 (Verify is total and never throws; exhausted \<^verbatim>\<open>interimHashes\<close> yields false).
  The code indexes \<^verbatim>\<open>p.InterimHashes[hashIndex]\<close> without a check: a transcript with a
  zero entry in \<^verbatim>\<open>ShortCounts\<close> and no interim hash makes \<^verbatim>\<open>Verify\<close> read index
  \<open>-1\<close>, which is a panic and not the answer false, whatever the hash function is.
\<close>

theorem C5_Verify_panics_on_exhausted_hashes:
  "Verify H \<lparr>Key = [0x00], HashValue = [], ShortCounts = [0], InterimHashes = []\<rparr> []
     = Inl IndexOutOfRange"
  by (simp add: Verify_def)

theorem C5_Verify_panics_on_exhausted_hashes_witness:
  "Verify prefixHasher \<lparr>Key = [0x00], HashValue = [], ShortCounts = [0], InterimHashes = []\<rparr> []
     = Inl IndexOutOfRange"
  by (rule C5_Verify_panics_on_exhausted_hashes)

text \<open>
  Claim C6 (error taxonomy; \<^verbatim>\<open>Prove\<close> on a key of the wrong length gives
  \<^verbatim>\<open>(nil, false)\<close>).  \<^verbatim>\<open>Get\<close> and \<^verbatim>\<open>Del\<close> compare the key's length with
  \<^verbatim>\<open>t.keyLength\<close>; \<^verbatim>\<open>Prove\<close> does not.  In the trie for one-byte keys that holds
  \<open>0xAA\<close>, the two-byte key \<open>0xAA 0x00\<close> gets a proof with found = true, and the
  empty key makes \<^verbatim>\<open>Prove\<close> panic.
\<close>

theorem C6_Prove_accepts_wrong_length_key:
  "bindE (NewTree 1) (\<lambda>t. Put t [0xAA] [0x70])
     = Inr (\<lparr>keyLength = 1, root = Short 8 [0xAA] (Leaf [0x70])\<rparr>, False)
   \<and> Prove H \<lparr>keyLength = 1, root = Short 8 [0xAA] (Leaf [0x70])\<rparr> [0xAA, 0x00]
     = Inr (Some \<lparr>Key = [0xAA, 0x00], HashValue = H leafNodeTag [0x70],
                  ShortCounts = [8], InterimHashes = []\<rparr>)
   \<and> Prove H \<lparr>keyLength = 1, root = Short 8 [0xAA] (Leaf [0x70])\<rparr> []
     = Inl IndexOutOfRange"
  by code_simp

theorem C6_Prove_accepts_wrong_length_key_witness:
  "Prove prefixHasher \<lparr>keyLength = 1, root = Short 8 [0xAA] (Leaf [0x70])\<rparr> [0xAA, 0x00]
     = Inr (Some \<lparr>Key = [0xAA, 0x00], HashValue = prefixHasher leafNodeTag [0x70],
                  ShortCounts = [8], InterimHashes = []\<rparr>)"
  using C6_Prove_accepts_wrong_length_key [of prefixHasher] by simp

lemma eval_Put_32:
  "bindE (NewTree 32) (\<lambda>t. Put t (replicate 32 0x00) [0x61])
     = Inr (\<lparr>keyLength = 32, root = Short 256 (replicate 32 0x00) (Leaf [0x61])\<rparr>, False)"
  by code_simp

lemma eval_Prove_32:
  "Prove H \<lparr>keyLength = 32, root = Short 256 (replicate 32 0x00) (Leaf [0x61])\<rparr>
        (replicate 32 0x00)
     = Inr (Some \<lparr>Key = replicate 32 0x00, HashValue = H leafNodeTag [0x61],
                  ShortCounts = [0], InterimHashes = []\<rparr>)"
  by code_simp

lemma eval_Verify_32:
  "Verify H \<lparr>Key = replicate 32 0x00, HashValue = H leafNodeTag [0x61],
                ShortCounts = [0], InterimHashes = []\<rparr> R
     = Inl IndexOutOfRange"
  by (simp add: Verify_def)

text \<open>
  Claim C3 (proof soundness for every key length from 1 to 8192).  With 32-byte keys
  and one key in the trie, the root is a short node of 256 bits.  \<^verbatim>\<open>uint8(n.count)\<close>
  is 0, so the transcript says "full node" where the trie has a short node, and
  \<^verbatim>\<open>Verify\<close>, whatever root hash it is given, panics on the missing interim hash instead
  of returning true.
\<close>

theorem C3_Prove_truncates_count_256:
  "bindE (NewTree 32) (\<lambda>t. Put t (replicate 32 0x00) [0x61])
     = Inr (\<lparr>keyLength = 32, root = Short 256 (replicate 32 0x00) (Leaf [0x61])\<rparr>, False)
   \<and> Prove H \<lparr>keyLength = 32, root = Short 256 (replicate 32 0x00) (Leaf [0x61])\<rparr>
        (replicate 32 0x00)
     = Inr (Some \<lparr>Key = replicate 32 0x00, HashValue = H leafNodeTag [0x61],
                  ShortCounts = [0], InterimHashes = []\<rparr>)
   \<and> Verify H \<lparr>Key = replicate 32 0x00, HashValue = H leafNodeTag [0x61],
                ShortCounts = [0], InterimHashes = []\<rparr> R
     = Inl IndexOutOfRange"
  by (intro conjI eval_Put_32 eval_Prove_32 eval_Verify_32)

theorem C3_Prove_truncates_count_256_witness:
  "Verify prefixHasher \<lparr>Key = replicate 32 0x00, HashValue = prefixHasher leafNodeTag [0x61],
                ShortCounts = [0], InterimHashes = []\<rparr> []
     = Inl IndexOutOfRange"
  using C3_Prove_truncates_count_256 [of prefixHasher "[]"] by simp

lemma eval_Put_FF:
  "bindE (NewTree 1) (\<lambda>t. Put t [0xFF] [0x61])
     = Inr (\<lparr>keyLength = 1, root = Short 8 [0xFF] (Leaf [0x61])\<rparr>, False)"
  by code_simp

lemma eval_Prove_FF:
  "Prove H \<lparr>keyLength = 1, root = Short 8 [0xFF] (Leaf [0x61])\<rparr> [0xFF]
     = Inr (Some \<lparr>Key = [0xFF], HashValue = H leafNodeTag [0x61],
                  ShortCounts = [8], InterimHashes = []\<rparr>)"
  by code_simp

lemma eval_Hash_FF:
  "Hash H \<lparr>keyLength = 1, root = Short 8 [0xFF] (Leaf [0x61])\<rparr>
     = Inr (H shortNodeTag ([0x00, 0x08] @ [0xFF] @ H leafNodeTag [0x61]))"
  by (simp add: Hash_def serializedPathSegmentLength_def)

lemma eval_setBits_FF: "setBits [0xFF] 0 (MakeBitVector 8) 8 0 = Inr [0xFF]"
  by code_simp

lemma eval_Verify_FF:
  "Verify H \<lparr>Key = [0xFF], HashValue = H leafNodeTag [0x61],
                ShortCounts = [8], InterimHashes = []\<rparr>
        (H shortNodeTag ([0x00, 0x08] @ [0xFF] @ H leafNodeTag [0x61]))
     = Inr True"
  by (simp add: Verify_def serializedPathSegmentLength_def eval_setBits_FF)

lemma eval_Verify_FF_flipped:
  "Verify H \<lparr>Key = [0xFF], HashValue = H leafNodeTag [0x61],
                ShortCounts = [flip_bit 3 8], InterimHashes = []\<rparr> R
     = Inl IndexOutOfRange"
  by (simp add: Verify_def)

text \<open>
  Claim C4 (a flipped bit in \<^verbatim>\<open>valueHash\<close>, an interim hash, a short count or the
  expected root makes Verify return false).  In the trie for one-byte keys that holds
  \<open>0xFF\<close>, the proof of \<open>0xFF\<close> has \<^verbatim>\<open>ShortCounts = [8]\<close> and verifies.  With bit 3 of
  that count flipped the count is 0 and \<^verbatim>\<open>Verify\<close> panics on the missing interim hash:
  it does not return false.
\<close>

theorem C4_Verify_panics_on_flipped_count:
  "bindE (NewTree 1) (\<lambda>t. Put t [0xFF] [0x61])
     = Inr (\<lparr>keyLength = 1, root = Short 8 [0xFF] (Leaf [0x61])\<rparr>, False)
   \<and> Prove H \<lparr>keyLength = 1, root = Short 8 [0xFF] (Leaf [0x61])\<rparr> [0xFF]
     = Inr (Some \<lparr>Key = [0xFF], HashValue = H leafNodeTag [0x61],
                  ShortCounts = [8], InterimHashes = []\<rparr>)
   \<and> Hash H \<lparr>keyLength = 1, root = Short 8 [0xFF] (Leaf [0x61])\<rparr>
     = Inr (H shortNodeTag ([0x00, 0x08] @ [0xFF] @ H leafNodeTag [0x61]))
   \<and> Verify H \<lparr>Key = [0xFF], HashValue = H leafNodeTag [0x61],
                ShortCounts = [8], InterimHashes = []\<rparr>
        (H shortNodeTag ([0x00, 0x08] @ [0xFF] @ H leafNodeTag [0x61]))
     = Inr True
   \<and> Verify H \<lparr>Key = [0xFF], HashValue = H leafNodeTag [0x61],
                ShortCounts = [flip_bit 3 8], InterimHashes = []\<rparr>
        (H shortNodeTag ([0x00, 0x08] @ [0xFF] @ H leafNodeTag [0x61]))
     = Inl IndexOutOfRange"
  by (intro conjI eval_Put_FF eval_Prove_FF eval_Hash_FF eval_Verify_FF eval_Verify_FF_flipped)

theorem C4_Verify_panics_on_flipped_count_witness:
  "Verify prefixHasher \<lparr>Key = [0xFF], HashValue = prefixHasher leafNodeTag [0x61],
                ShortCounts = [flip_bit 3 8], InterimHashes = []\<rparr>
        (prefixHasher shortNodeTag ([0x00, 0x08] @ [0xFF] @ prefixHasher leafNodeTag [0x61]))
     = Inl IndexOutOfRange"
  using C4_Verify_panics_on_flipped_count [of prefixHasher] by simp

end
